theory Spec2Isabelle
  imports Main
begin

text \<open>
  The cache engine of micro-memoize: the memoized function of index.ts, and the key
  comparison, key lookup, least-recently-used reordering and promise handling of utils.js.
  The sections up to the examples translate the functions; the sections after them state
  and prove what the specification says about the engine.
\<close>

section \<open>The data of the cache engine\<close>

text \<open>
  One universe of JavaScript values serves for arguments, keys and results:
  \<^verbatim>\<open>undefined\<close>; an atom, which is any value that is neither an array nor a promise;
  an array of values; a promise, named by a number; and the promise
  \<^verbatim>\<open>p.then(...).catch(...)\<close> that the asynchronous adapter puts in the place of \<open>p\<close>,
  whose two callbacks have captured the key that was at index 0.
\<close>

datatype 'a jsval =
    Undefined
  | Atom 'a
  | Array "'a jsval list"
  | Promise nat
  | Handled "'a jsval" "'a jsval"

fun isThenable :: "'a jsval \<Rightarrow> bool" where
  "isThenable (Promise p) = True"
| "isThenable (Handled p key) = True"
| "isThenable v = False"

datatype 'e error = TypeError | Thrown 'e

text \<open>How a promise settles: fulfilled with a value, or rejected with a reason.\<close>

datatype 'a outcome = Fulfilled "'a jsval" | Rejected "'a jsval"

text \<open>
  The wrapped function and the three hooks are supplied by the user. The wrapped function
  is a function of the argument list and of a world state of its own (so that calling it
  twice need not give the same result), and it returns a value or throws. A hook is named
  by a value of type \<open>'h\<close>; calling it is recorded in a trace together with the contents of
  the cache it was handed, and so is every invocation of the wrapped function. Neither the
  wrapped function nor a hook reaches into the cache, and hooks return normally.
\<close>

datatype ('a, 'h) event =
    Invoked "'a jsval list"
  | HookCall 'h "'a jsval list" "'a jsval list"

record ('a, 'h, 'w) state =
  keys :: "'a jsval list"
  "values" :: "'a jsval list"
  trace :: "('a, 'h) event list"
  world :: 'w

section \<open>JavaScript arrays\<close>

text \<open>
  \<^verbatim>\<open>array[i]\<close> reads \<^verbatim>\<open>undefined\<close> past the end; \<^verbatim>\<open>array[i] = v\<close> past the end extends the
  array, and the slots in between read as \<^verbatim>\<open>undefined\<close>; \<^verbatim>\<open>array.splice(i, 1)\<close> removes the
  element at \<open>i\<close> and does nothing past the end.
\<close>

definition arrayGet :: "'a jsval list \<Rightarrow> nat \<Rightarrow> 'a jsval" where
  "arrayGet array i = (if i < length array then array ! i else Undefined)"

definition arraySet :: "'a jsval list \<Rightarrow> nat \<Rightarrow> 'a jsval \<Rightarrow> 'a jsval list" where
  "arraySet array i v =
     (if i < length array then array[i := v]
      else array @ replicate (i - length array) Undefined @ [v])"

definition splice1 :: "'x list \<Rightarrow> nat \<Rightarrow> 'x list" where
  "splice1 array i = take i array @ drop (Suc i) array"

section \<open>utils.js\<close>

subsection \<open>areKeysEqual\<close>

text \<open>
  \<^verbatim>\<open>createAreKeysEqual(isEqual)\<close> returns \<^verbatim>\<open>areKeysEqual(keys1, keys2)\<close>. Both keys are
  arrays (\<^verbatim>\<open>Array<any>\<close> in the source), given here by their elements. The \<^verbatim>\<open>for\<close> loop
  over \<^verbatim>\<open>index\<close> is the recursive function below; it is entered only when the two lengths
  are equal, so both reads are in range.
\<close>

function areKeysEqual_loop :: "('x \<Rightarrow> 'x \<Rightarrow> bool) \<Rightarrow> 'x list \<Rightarrow> 'x list \<Rightarrow> nat \<Rightarrow> bool" where
  "areKeysEqual_loop isEqual keys1 keys2 index =
     (if index < length keys1
      then (if \<not> isEqual (keys1 ! index) (keys2 ! index) then False
            else areKeysEqual_loop isEqual keys1 keys2 (index + 1))
      else True)"
  by pat_completeness auto
termination
  by (relation "measure (\<lambda>(isEqual, keys1, keys2, index). length keys1 - index)") auto

definition areKeysEqual :: "('x \<Rightarrow> 'x \<Rightarrow> bool) \<Rightarrow> 'x list \<Rightarrow> 'x list \<Rightarrow> bool" where
  "areKeysEqual isEqual keys1 keys2 =
     (if length keys1 \<noteq> length keys2 then False
      else areKeysEqual_loop isEqual keys1 keys2 0)"

subsection \<open>getKeyIndex\<close>

text \<open>
  The scan of \<^verbatim>\<open>getKeyIndex(allKeys, keysToMatch)\<close>: the first index whose stored key the
  matcher accepts, or \<open>None\<close> for the source's \<open>-1\<close>. The stored key is the matcher's first
  argument. \<^verbatim>\<open>createGetKeyIndex(isEqual)\<close> of utils.js runs the scan with
  \<^verbatim>\<open>areKeysEqual\<close> over keys that are arrays.
\<close>

function getKeyIndex_loop :: "('k \<Rightarrow> 'k \<Rightarrow> bool) \<Rightarrow> 'k list \<Rightarrow> 'k \<Rightarrow> nat \<Rightarrow> nat option" where
  "getKeyIndex_loop matches allKeys keysToMatch index =
     (if index < length allKeys
      then (if matches (allKeys ! index) keysToMatch then Some index
            else getKeyIndex_loop matches allKeys keysToMatch (index + 1))
      else None)"
  by pat_completeness auto
termination
  by (relation "measure (\<lambda>(matches, allKeys, keysToMatch, index). length allKeys - index)") auto

definition createGetKeyIndex :: "('x \<Rightarrow> 'x \<Rightarrow> bool) \<Rightarrow> 'x list list \<Rightarrow> 'x list \<Rightarrow> nat option" where
  "createGetKeyIndex isEqual allKeys keysToMatch =
     getKeyIndex_loop (areKeysEqual isEqual) allKeys keysToMatch 0"

subsection \<open>getTransformedKey, isSameValueZero\<close>

text \<open>\<^verbatim>\<open>Array.isArray(key) ? key : [key]\<close>, the result given by its elements.\<close>

definition getTransformedKey :: "('a jsval list \<Rightarrow> 'a jsval) \<Rightarrow> 'a jsval list \<Rightarrow> 'a jsval list" where
  "getTransformedKey transform args =
     (let key = transform args
      in case key of Array elements \<Rightarrow> elements | _ \<Rightarrow> [key])"

text \<open>
  \<^verbatim>\<open>object1 === object2 || (object1 !== object1 && object2 !== object2)\<close>, with strict
  equality as a parameter (it is not reflexive: \<^verbatim>\<open>NaN !== NaN\<close>).
\<close>

definition isSameValueZero :: "('x \<Rightarrow> 'x \<Rightarrow> bool) \<Rightarrow> 'x \<Rightarrow> 'x \<Rightarrow> bool" where
  "isSameValueZero strictEquals object1 object2 =
     (strictEquals object1 object2
      \<or> (\<not> strictEquals object1 object1 \<and> \<not> strictEquals object2 object2))"

subsection \<open>orderByLru\<close>

text \<open>
  \<^verbatim>\<open>while (index--) { array[index + 1] = array[index]; }\<close>: the test reads \<^verbatim>\<open>index\<close> and
  then decrements it, so the body runs with the decremented value. \<^verbatim>\<open>startingIndex\<close> is a
  natural number (an array index or a length).
\<close>

fun orderByLru_loop :: "'a jsval list \<Rightarrow> nat \<Rightarrow> 'a jsval list" where
  "orderByLru_loop array 0 = array"
| "orderByLru_loop array (Suc index) =
     orderByLru_loop (arraySet array (index + 1) (arrayGet array index)) index"

definition orderByLru :: "'a jsval list \<Rightarrow> 'a jsval \<Rightarrow> nat \<Rightarrow> 'a jsval list" where
  "orderByLru array v startingIndex =
     arraySet (orderByLru_loop array startingIndex) 0 v"

subsection \<open>setPromiseHandler\<close>

text \<open>
  \<^verbatim>\<open>setPromiseHandler(cache, options, getKeyIndex)\<close> reads \<^verbatim>\<open>cache.keys[0]\<close> and replaces
  \<^verbatim>\<open>cache.values[0]\<close> by the promise with the two callbacks attached. Calling \<^verbatim>\<open>.then\<close> on
  a value that is not thenable is a TypeError. The arguments \<^verbatim>\<open>options\<close> and
  \<^verbatim>\<open>getKeyIndex\<close> are not used at this point: the callbacks close over them, and they are
  arguments of the callbacks below (of \<^verbatim>\<open>options\<close>, the hit hook and the change hook, which
  the first callback calls unconditionally).
\<close>

definition setPromiseHandler :: "('a, 'h, 'w) state \<Rightarrow> 'e error + ('a, 'h, 'w) state" where
  "setPromiseHandler cache =
     (let key = arrayGet (keys cache) 0
      in if isThenable (arrayGet (values cache) 0)
         then Inr (cache\<lparr>values := arraySet (values cache) 0 (Handled (arrayGet (values cache) 0) key)\<rparr>)
         else Inl TypeError)"

text \<open>
  The callback given to \<^verbatim>\<open>.then\<close>, run when the promise is fulfilled with \<open>v\<close>, in the
  state the cache has at that time: it calls the hit hook, then the change hook, and
  returns \<open>v\<close>.
\<close>

definition onFulfilled ::
  "'h \<Rightarrow> 'h \<Rightarrow> ('a, 'h, 'w) state \<Rightarrow> 'a jsval \<Rightarrow> 'a outcome \<times> ('a, 'h, 'w) state" where
  "onFulfilled hitHook changeHook cache v =
     (Fulfilled v,
      cache\<lparr>trace := trace cache
         @ [HookCall hitHook (keys cache) (values cache),
            HookCall changeHook (keys cache) (values cache)]\<rparr>)"

text \<open>
  The callback given to \<^verbatim>\<open>.catch\<close>, run when the promise is rejected: it looks the
  captured key up with the locator it was given, splices the index out of both arrays when
  there is one (\<^verbatim>\<open>~keyIndex\<close> is zero only for \<open>-1\<close>), and throws the error again.
\<close>

definition onRejected ::
  "('a jsval list \<Rightarrow> 'a jsval \<Rightarrow> nat option) \<Rightarrow> 'a jsval \<Rightarrow> ('a, 'h, 'w) state \<Rightarrow> 'a jsval
     \<Rightarrow> 'a outcome \<times> ('a, 'h, 'w) state" where
  "onRejected locate key cache err =
     (case locate (keys cache) key of
        Some keyIndex \<Rightarrow>
          (Rejected err,
           cache\<lparr>keys := splice1 (keys cache) keyIndex,
                 values := splice1 (values cache) keyIndex\<rparr>)
      | None \<Rightarrow> (Rejected err, cache))"

text \<open>
  What the promise \<open>Handled p key\<close> does when \<open>p\<close> settles: \<^verbatim>\<open>.then(f).catch(g)\<close> runs
  \<open>f\<close> on fulfilment and \<open>g\<close> on rejection (\<open>f\<close> does not throw here, since hooks return
  normally).
\<close>

definition settle ::
  "'h \<Rightarrow> 'h \<Rightarrow> ('a jsval list \<Rightarrow> 'a jsval \<Rightarrow> nat option) \<Rightarrow> 'a jsval
     \<Rightarrow> 'a outcome \<Rightarrow> ('a, 'h, 'w) state \<Rightarrow> 'a outcome \<times> ('a, 'h, 'w) state" where
  "settle hitHook changeHook locate key result cache =
     (case result of
        Fulfilled v \<Rightarrow> onFulfilled hitHook changeHook cache v
      | Rejected err \<Rightarrow> onRejected locate key cache err)"

section \<open>The configuration and the hooks\<close>

text \<open>
  The options after destructuring with defaults (\<^verbatim>\<open>normalizedOptions\<close> of index.ts).
  A hook that is configured is given by its name. \<^verbatim>\<open>maxSize\<close> is a natural number here:
  \<^verbatim>\<open>Infinity\<close>, under which nothing is ever evicted, is left out.
\<close>

record ('a, 'h) options =
  isEqual :: "'a jsval \<Rightarrow> 'a jsval \<Rightarrow> bool"
  isMatchingKey :: "('a jsval \<Rightarrow> 'a jsval \<Rightarrow> bool) option"
  isPromise :: bool
  maxSize :: nat
  onCacheAdd :: "'h option"
  onCacheChange :: "'h option"
  onCacheHit :: "'h option"
  transformKey :: "('a jsval list \<Rightarrow> 'a jsval) option"

type_synonym ('a, 'e, 'w) wrapped =
  "'a jsval list \<Rightarrow> 'w \<Rightarrow> ('e + 'a jsval) \<times> 'w"

text \<open>
  \<^verbatim>\<open>shouldUpdateOnX && onCacheX(cache, normalizedOptions, memoized)\<close>: the hook is called,
  with the cache as it is then, when one is configured.
\<close>

definition hookCalls :: "'h option \<Rightarrow> 'a jsval list \<Rightarrow> 'a jsval list \<Rightarrow> ('a, 'h) event list" where
  "hookCalls hook ks vs = (case hook of Some h \<Rightarrow> [HookCall h ks vs] | None \<Rightarrow> [])"

definition fire :: "'h option \<Rightarrow> ('a, 'h, 'w) state \<Rightarrow> ('a, 'h, 'w) state" where
  "fire hook cache = cache\<lparr>trace := trace cache @ hookCalls hook (keys cache) (values cache)\<rparr>"

section \<open>The functions index.ts imports from a module that is not at hand\<close>

text \<open>
  index.ts imports \<^verbatim>\<open>createGetKeyIndex\<close>, \<^verbatim>\<open>createUpdateAsyncCache\<close>, \<^verbatim>\<open>orderByLru\<close>,
  \<^verbatim>\<open>isMemoized\<close>, \<^verbatim>\<open>isFunction\<close>, \<^verbatim>\<open>getCustomOptions\<close> and \<^verbatim>\<open>mergeOptions\<close> from
  \<^verbatim>\<open>./utils\<close>, and calls the first with the options object and the third with the cache
  and five arguments. The module utils.js above is an earlier one: its
  \<^verbatim>\<open>createGetKeyIndex\<close> takes the equality function, its \<^verbatim>\<open>orderByLru\<close> takes one array
  and three arguments, and it exports none of the others. The functions that index.ts calls
  are therefore written from the specification, on top of the functions of utils.js where
  the specification describes the same algorithm.
\<close>

text \<open>
  Modelled from the spec: the Key Matcher of 4.2, part of the absent
  \<^verbatim>\<open>createGetKeyIndex(options)\<close>. In whole-key mode it is the configured \<^verbatim>\<open>isMatchingKey\<close>
  applied to the two keys; otherwise two key sequences are compared element by element
  (\<^verbatim>\<open>areKeysEqual\<close> of utils.js). The specification has no rule for a key that is not a
  sequence; such a key matches nothing in element-wise mode here.
\<close>

definition keyMatcher :: "('a, 'h) options \<Rightarrow> 'a jsval \<Rightarrow> 'a jsval \<Rightarrow> bool" where
  "keyMatcher opts storedKey key =
     (case isMatchingKey opts of
        Some matchingKey \<Rightarrow> matchingKey storedKey key
      | None \<Rightarrow>
          (case (storedKey, key) of
             (Array keys1, Array keys2) \<Rightarrow> areKeysEqual (isEqual opts) keys1 keys2
           | _ \<Rightarrow> False))"

text \<open>
  Modelled from the spec: the Key Locator of 4.3, the function that the absent
  \<^verbatim>\<open>createGetKeyIndex(options)\<close> returns: the linear scan of utils.js with the active Key
  Matcher.
\<close>

definition getKeyIndex :: "('a, 'h) options \<Rightarrow> 'a jsval list \<Rightarrow> 'a jsval \<Rightarrow> nat option" where
  "getKeyIndex opts allKeys key = getKeyIndex_loop (keyMatcher opts) allKeys key 0"

text \<open>
  Modelled from the spec: \<^verbatim>\<open>promote(store, key, value, sourceIndex, maxSize)\<close> of 4.4, the
  absent five-argument \<^verbatim>\<open>orderByLru(cache, key, value, startingIndex, maxSize)\<close>. An entry
  already at the front stays where it is; otherwise the shift-and-place of utils.js runs on
  each of the two sequences, and when the store has then more than \<^verbatim>\<open>maxSize\<close> entries, both
  sequences are cut back to \<^verbatim>\<open>maxSize\<close>.
\<close>

definition orderByLruCache ::
  "('a, 'h, 'w) state \<Rightarrow> 'a jsval \<Rightarrow> 'a jsval \<Rightarrow> nat \<Rightarrow> nat \<Rightarrow> ('a, 'h, 'w) state" where
  "orderByLruCache cache key v sourceIndex limit =
     (if sourceIndex = 0 \<and> keys cache \<noteq> [] then cache
      else
        let newKeys = orderByLru (keys cache) key sourceIndex;
            newValues = orderByLru (values cache) v sourceIndex
        in if length newKeys > limit
           then cache\<lparr>keys := take limit newKeys, values := take limit newValues\<rparr>
           else cache\<lparr>keys := newKeys, values := newValues\<rparr>)"

text \<open>
  Modelled from the spec: the Async Result Adapter of 4.5, the function that the absent
  \<^verbatim>\<open>createUpdateAsyncCache(options)\<close> returns. It attaches to the value at index 0 as
  \<^verbatim>\<open>setPromiseHandler\<close> of utils.js does. When the promise settles (\<open>asyncSettle\<close>), success
  calls the hit hook and the change hook, each if configured (4.6: hooks are optional), and
  passes the value on; failure is the \<^verbatim>\<open>.catch\<close> callback of utils.js with the Key Locator
  of the configuration.
\<close>

definition updateAsyncCache :: "('a, 'h, 'w) state \<Rightarrow> 'e error + ('a, 'h, 'w) state" where
  "updateAsyncCache cache = setPromiseHandler cache"

definition asyncSettle ::
  "('a, 'h) options \<Rightarrow> 'a jsval \<Rightarrow> 'a outcome \<Rightarrow> ('a, 'h, 'w) state
     \<Rightarrow> 'a outcome \<times> ('a, 'h, 'w) state" where
  "asyncSettle opts key result cache =
     (case result of
        Fulfilled v \<Rightarrow> (Fulfilled v, fire (onCacheChange opts) (fire (onCacheHit opts) cache))
      | Rejected err \<Rightarrow> onRejected (getKeyIndex opts) key cache err)"

section \<open>index.ts\<close>

subsection \<open>memoized\<close>

text \<open>
  \<^verbatim>\<open>normalizedArgs\<close> is the argument list (cloned or not, its elements are the same), and
  \<^verbatim>\<open>key\<close> is what \<^verbatim>\<open>transformKey\<close> returns for it when one is configured, as it is.
\<close>

definition requestKey :: "('a, 'h) options \<Rightarrow> 'a jsval list \<Rightarrow> 'a jsval" where
  "requestKey opts args =
     (case transformKey opts of
        Some transform \<Rightarrow> transform args
      | None \<Rightarrow> Array args)"

definition shouldCloneArguments :: "('a, 'h) options \<Rightarrow> bool" where
  "shouldCloneArguments opts = (transformKey opts \<noteq> None \<or> isMatchingKey opts \<noteq> None)"

text \<open>
  The invocations of the wrapped function that a trace records, oldest first.
\<close>

fun invocations :: "('a, 'h) event list \<Rightarrow> 'a jsval list list" where
  "invocations [] = []"
| "invocations (Invoked args # events) = args # invocations events"
| "invocations (HookCall h ks vs # events) = invocations events"

text \<open>
  One call of the memoized function. The result is the returned value, or the error thrown:
  by the wrapped function (nothing is stored then), or the TypeError of attaching to a
  result that is not a promise when \<^verbatim>\<open>isPromise\<close> is set (the entry is stored by then).
\<close>

definition memoized ::
  "('a, 'h) options \<Rightarrow> ('a, 'e, 'w) wrapped \<Rightarrow> 'a jsval list \<Rightarrow> ('a, 'h, 'w) state
     \<Rightarrow> ('e error + 'a jsval) \<times> ('a, 'h, 'w) state" where
  "memoized opts fn args cache =
     (let key = requestKey opts args;
          keyIndex = (if keys cache \<noteq> [] then getKeyIndex opts (keys cache) key else None)
      in case keyIndex of
           Some i \<Rightarrow>
             let hit = fire (onCacheHit opts) cache;
                 ordered =
                   (if i \<noteq> 0
                    then fire (onCacheChange opts)
                           (orderByLruCache hit (arrayGet (keys hit) i) (arrayGet (values hit) i)
                              i (maxSize opts))
                    else hit)
             in (Inr (arrayGet (values ordered) 0), ordered)
         | None \<Rightarrow>
             (case fn args (world cache) of
                (result, w) \<Rightarrow>
                  let called = cache\<lparr>trace := trace cache @ [Invoked args], world := w\<rparr>
                  in case result of
                       Inl err \<Rightarrow> (Inl (Thrown err), called)
                     | Inr newValue \<Rightarrow>
                         let newKey = (if shouldCloneArguments opts then key else Array args);
                             stored = orderByLruCache called newKey newValue
                                        (length (keys called)) (maxSize opts)
                         in case (if isPromise opts then updateAsyncCache stored else Inr stored) of
                              Inl err \<Rightarrow> (Inl err, stored)
                            | Inr handled \<Rightarrow>
                                let added = fire (onCacheChange opts) (fire (onCacheAdd opts) handled)
                                in (Inr (arrayGet (values added) 0), added)))"

subsection \<open>Sequences of calls and settlements\<close>

text \<open>
  What happens to a cache over time: calls of the memoized function, and promises
  settling whose callbacks captured some key. The initial cache is empty.
\<close>

datatype 'a action =
    Call "'a jsval list"
  | Settle "'a jsval" "'a outcome"

definition step ::
  "('a, 'h) options \<Rightarrow> ('a, 'e, 'w) wrapped \<Rightarrow> ('a, 'h, 'w) state \<Rightarrow> 'a action
     \<Rightarrow> ('a, 'h, 'w) state" where
  "step opts fn cache act =
     (case act of
        Call args \<Rightarrow> snd (memoized opts fn args cache)
      | Settle key result \<Rightarrow> snd (asyncSettle opts key result cache))"

definition run ::
  "('a, 'h) options \<Rightarrow> ('a, 'e, 'w) wrapped \<Rightarrow> ('a, 'h, 'w) state \<Rightarrow> 'a action list
     \<Rightarrow> ('a, 'h, 'w) state" where
  "run opts fn cache acts = foldl (step opts fn) cache acts"

definition emptyCache :: "'w \<Rightarrow> ('a, 'h, 'w) state" where
  "emptyCache w = \<lparr>keys = [], values = [], trace = [], world = w\<rparr>"

subsection \<open>createMemoizedFunction\<close>

text \<open>
  The second argument of \<^verbatim>\<open>createMemoizedFunction\<close>, before the defaults are filled in:
  every option may be absent.
\<close>

record ('a, 'h) standardOptions =
  isEqual' :: "('a jsval \<Rightarrow> 'a jsval \<Rightarrow> bool) option"
  isMatchingKey' :: "('a jsval \<Rightarrow> 'a jsval \<Rightarrow> bool) option"
  isPromise' :: "bool option"
  maxSize' :: "nat option"
  onCacheAdd' :: "'h option"
  onCacheChange' :: "'h option"
  onCacheHit' :: "'h option"
  transformKey' :: "('a jsval list \<Rightarrow> 'a jsval) option"

text \<open>
  \<^verbatim>\<open>normalizedOptions\<close>: the destructuring defaults \<^verbatim>\<open>isEqual = isSameValueZero\<close>,
  \<^verbatim>\<open>isPromise = false\<close>, \<^verbatim>\<open>maxSize = 1\<close>. Options beyond these eight, which
  \<^verbatim>\<open>getCustomOptions\<close> and \<^verbatim>\<open>mergeOptions\<close> carry over, play no part in the engine and are
  left out.
\<close>

definition normalizeOptions ::
  "('a jsval \<Rightarrow> 'a jsval \<Rightarrow> bool) \<Rightarrow> ('a, 'h) standardOptions \<Rightarrow> ('a, 'h) options" where
  "normalizeOptions strictEquals given =
     \<lparr>isEqual = (case isEqual' given of None \<Rightarrow> isSameValueZero strictEquals | Some eq \<Rightarrow> eq),
      isMatchingKey = isMatchingKey' given,
      isPromise = (case isPromise' given of None \<Rightarrow> False | Some b \<Rightarrow> b),
      maxSize = (case maxSize' given of None \<Rightarrow> 1 | Some n \<Rightarrow> n),
      onCacheAdd = onCacheAdd' given,
      onCacheChange = onCacheChange' given,
      onCacheHit = onCacheHit' given,
      transformKey = transformKey' given\<rparr>"

text \<open>
  What \<^verbatim>\<open>createMemoizedFunction\<close> may be handed as \<^verbatim>\<open>fn\<close>: something that is not a
  function, a function, or a function that \<^verbatim>\<open>createMemoizedFunction\<close> returned earlier.
  Such a function carries its wrapped function, the properties \<^verbatim>\<open>options\<close> and \<^verbatim>\<open>cache\<close>
  (the keys and the values), and the property \<^verbatim>\<open>isMemoized: true\<close>, which is what tells
  it from a plain function.
\<close>

record ('a, 'e, 'h, 'w) memoizedFunction =
  wrappedFn :: "('a, 'e, 'w) wrapped"
  optionsProperty :: "('a, 'h) options"
  cacheProperty :: "'a jsval list \<times> 'a jsval list"

datatype ('a, 'e, 'h, 'w) callee =
    NotAFunction
  | PlainFunction "('a, 'e, 'w) wrapped"
  | MemoizedFunction "('a, 'e, 'h, 'w) memoizedFunction"

text \<open>
  Modelled from the spec: \<^verbatim>\<open>isMemoized\<close> and \<^verbatim>\<open>isFunction\<close>, absent helpers of
  \<^verbatim>\<open>./utils\<close>: "detection of: is this already a memoized callable" (1), and whether the
  input is callable at all (7, construction error). In \<^verbatim>\<open>createMemoizedFunction\<close> the
  last case of the \<open>case\<close> does not arise: a function that is not memoized is a plain one.
\<close>

fun isMemoized :: "('a, 'e, 'h, 'w) callee \<Rightarrow> bool" where
  "isMemoized (MemoizedFunction m) = True"
| "isMemoized c = False"

fun isFunction :: "('a, 'e, 'h, 'w) callee \<Rightarrow> bool" where
  "isFunction NotAFunction = False"
| "isFunction c = True"

definition createMemoizedFunction ::
  "('a jsval \<Rightarrow> 'a jsval \<Rightarrow> bool) \<Rightarrow> ('a, 'e, 'h, 'w) callee \<Rightarrow> ('a, 'h) standardOptions
     \<Rightarrow> 'x error + ('a, 'e, 'h, 'w) callee" where
  "createMemoizedFunction strictEquals fn given =
     (if isMemoized fn then Inr fn
      else if \<not> isFunction fn then Inl TypeError
      else case fn of
             PlainFunction f \<Rightarrow>
               Inr (MemoizedFunction
                      \<lparr>wrappedFn = f,
                       optionsProperty = normalizeOptions strictEquals given,
                       cacheProperty = ([], [])\<rparr>)
           | _ \<Rightarrow> Inr fn)"

subsection \<open>The invariant of the store\<close>


section \<open>Examples\<close>

text \<open>
  A configuration with room for two entries and all three hooks; a wrapped function that
  returns the number of times it has been called before, so that a repeated invocation
  shows in the result; one that always throws; one that returns a new pending promise on
  each call; a key transform that returns the first argument, which need not be an array;
  and a whole-key predicate that compares the first elements of two keys.
\<close>

datatype hook = AddHook | ChangeHook | HitHook

definition exampleOptions :: "(nat, hook) options" where
  "exampleOptions =
     \<lparr>isEqual = (=), isMatchingKey = None, isPromise = False, maxSize = 2,
      onCacheAdd = Some AddHook, onCacheChange = Some ChangeHook, onCacheHit = Some HitHook,
      transformKey = None\<rparr>"

definition counter :: "(nat, unit, nat) wrapped" where
  "counter args n = (Inr (Atom n), Suc n)"

definition failing :: "(nat, unit, nat) wrapped" where
  "failing args n = (Inl (), Suc n)"

definition pending :: "(nat, unit, nat) wrapped" where
  "pending args n = (Inr (Promise n), Suc n)"

definition firstArgument :: "nat jsval list \<Rightarrow> nat jsval" where
  "firstArgument args = arrayGet args 0"

definition sameFirstElement :: "nat jsval \<Rightarrow> nat jsval \<Rightarrow> bool" where
  "sameFirstElement storedKey key =
     (case (storedKey, key) of
        (Array (x # xs), Array (y # ys)) \<Rightarrow> x = y
      | _ \<Rightarrow> False)"

definition noOptions :: "(nat, hook) standardOptions" where
  "noOptions =
     \<lparr>isEqual' = None, isMatchingKey' = None, isPromise' = None, maxSize' = None,
      onCacheAdd' = None, onCacheChange' = None, onCacheHit' = None, transformKey' = None\<rparr>"

text \<open>
  A store with two entries, as calls of \<open>counter\<close> with the arguments 1, then 2, then 1
  again leave it behind (the trace apart): the key \<open>[1]\<close> is in front.
\<close>

definition twoEntries :: "(nat, hook, nat) state" where
  "twoEntries =
     \<lparr>keys = [Array [Atom 1], Array [Atom 2]], values = [Atom 0, Atom 1], trace = [], world = 2\<rparr>"

definition transformOptions :: "(nat, hook) options" where
  "transformOptions = exampleOptions\<lparr>transformKey := Some firstArgument\<rparr>"

definition wholeKeyOptions :: "(nat, hook) options" where
  "wholeKeyOptions = exampleOptions\<lparr>isMatchingKey := Some sameFirstElement\<rparr>"

text \<open>
  The same configuration for asynchronous results, and a store as calls of \<open>pending\<close>
  with the arguments 2 and then 1 leave it behind (the trace apart).
\<close>

definition asyncOptions :: "(nat, hook) options" where
  "asyncOptions = exampleOptions\<lparr>isPromise := True\<rparr>"

definition twoPending :: "(nat, hook, nat) state" where
  "twoPending =
     \<lparr>keys = [Array [Atom 1], Array [Atom 2]],
      values = [Handled (Promise 1) (Array [Atom 1]), Handled (Promise 0) (Array [Atom 2])],
      trace = [], world = 2\<rparr>"

section \<open>The loops\<close>


declare areKeysEqual_loop.simps [simp del]
declare getKeyIndex_loop.simps [simp del]

lemma all_from_Suc:
  "P index \<Longrightarrow>
   (\<forall>i. Suc index \<le> i \<and> Q i \<longrightarrow> P i) = (\<forall>i::nat. index \<le> i \<and> Q i \<longrightarrow> P i)"
proof (intro iffI allI impI)
  fix i
  assume first: "P index" and rest: "\<forall>i. Suc index \<le> i \<and> Q i \<longrightarrow> P i"
    and i: "index \<le> i \<and> Q i"
  show "P i"
  proof (cases "i = index")
    case True
    with first show ?thesis by simp
  next
    case False
    with i have "Suc index \<le> i" by simp
    with rest i show ?thesis by blast
  qed
next
  fix i
  assume "\<forall>i. index \<le> i \<and> Q i \<longrightarrow> P i" and "Suc index \<le> i \<and> Q i"
  then show "P i" by (simp add: Suc_leD)
qed

lemma areKeysEqual_loop_iff:
  "length keys1 = length keys2 \<Longrightarrow>
   areKeysEqual_loop isEq keys1 keys2 index =
     (\<forall>i. index \<le> i \<and> i < length keys1 \<longrightarrow> isEq (keys1 ! i) (keys2 ! i))"
proof (induction isEq keys1 keys2 index rule: areKeysEqual_loop.induct)
  case (1 isEq keys1 keys2 index)
  show ?case
  proof (cases "index < length keys1")
    case False
    then show ?thesis
      by (subst areKeysEqual_loop.simps) auto
  next
    case inRange: True
    show ?thesis
    proof (cases "isEq (keys1 ! index) (keys2 ! index)")
      case False
      with inRange show ?thesis
        by (subst areKeysEqual_loop.simps) auto
    next
      case True
      have "areKeysEqual_loop isEq keys1 keys2 index =
            areKeysEqual_loop isEq keys1 keys2 (index + 1)"
        using inRange True by (subst areKeysEqual_loop.simps) simp
      also have "\<dots> = (\<forall>i. Suc index \<le> i \<and> i < length keys1 \<longrightarrow> isEq (keys1 ! i) (keys2 ! i))"
        using "1.IH" [OF inRange] True "1.prems" by simp
      also have "\<dots> = (\<forall>i. index \<le> i \<and> i < length keys1 \<longrightarrow> isEq (keys1 ! i) (keys2 ! i))"
        using True by (rule all_from_Suc)
      finally show ?thesis .
    qed
  qed
qed

lemma getKeyIndex_loop_None:
  "getKeyIndex_loop m ks k index = None \<longleftrightarrow>
     (\<forall>l. index \<le> l \<and> l < length ks \<longrightarrow> \<not> m (ks ! l) k)"
proof (induction m ks k index rule: getKeyIndex_loop.induct)
  case (1 m ks k index)
  show ?case
  proof (cases "index < length ks")
    case False
    then show ?thesis
      by (subst getKeyIndex_loop.simps) auto
  next
    case inRange: True
    show ?thesis
    proof (cases "m (ks ! index) k")
      case True
      then show ?thesis
        using inRange by (subst getKeyIndex_loop.simps) auto
    next
      case False
      have "getKeyIndex_loop m ks k index = getKeyIndex_loop m ks k (index + 1)"
        using inRange False by (subst getKeyIndex_loop.simps) simp
      also have "(\<dots> = None) = (\<forall>l. Suc index \<le> l \<and> l < length ks \<longrightarrow> \<not> m (ks ! l) k)"
        using "1.IH" [OF inRange False] by simp
      also have "\<dots> = (\<forall>l. index \<le> l \<and> l < length ks \<longrightarrow> \<not> m (ks ! l) k)"
        using False by (rule all_from_Suc)
      finally show ?thesis .
    qed
  qed
qed

lemma getKeyIndex_loop_Some:
  "getKeyIndex_loop m ks k index = Some j \<longleftrightarrow>
     index \<le> j \<and> j < length ks \<and> m (ks ! j) k \<and> (\<forall>l. index \<le> l \<and> l < j \<longrightarrow> \<not> m (ks ! l) k)"
proof (induction m ks k index rule: getKeyIndex_loop.induct)
  case (1 m ks k index)
  show ?case
  proof (cases "index < length ks")
    case False
    then show ?thesis
      by (subst getKeyIndex_loop.simps) auto
  next
    case inRange: True
    show ?thesis
    proof (cases "m (ks ! index) k")
      case True
      have here: "getKeyIndex_loop m ks k index = Some index"
        using inRange True by (subst getKeyIndex_loop.simps) simp
      show ?thesis
      proof (cases "j = index")
        case True
        with here inRange \<open>m (ks ! index) k\<close> show ?thesis by auto
      next
        case False
        have "\<not> (index \<le> j \<and> (\<forall>l. index \<le> l \<and> l < j \<longrightarrow> \<not> m (ks ! l) k))"
        proof
          assume a: "index \<le> j \<and> (\<forall>l. index \<le> l \<and> l < j \<longrightarrow> \<not> m (ks ! l) k)"
          with False have "index < j" by simp
          with a True show False by blast
        qed
        with here False show ?thesis by auto
      qed
    next
      case False
      have shift: "(\<forall>l. Suc index \<le> l \<and> l < j \<longrightarrow> \<not> m (ks ! l) k)
                   = (\<forall>l. index \<le> l \<and> l < j \<longrightarrow> \<not> m (ks ! l) k)"
        using False by (rule all_from_Suc)
      have start: "m (ks ! j) k \<Longrightarrow> index \<le> j \<Longrightarrow> Suc index \<le> j"
        using False by (cases "j = index") auto
      have "getKeyIndex_loop m ks k index = getKeyIndex_loop m ks k (index + 1)"
        using inRange False by (subst getKeyIndex_loop.simps) simp
      also have "(\<dots> = Some j) = (Suc index \<le> j \<and> j < length ks \<and> m (ks ! j) k
           \<and> (\<forall>l. Suc index \<le> l \<and> l < j \<longrightarrow> \<not> m (ks ! l) k))"
        using "1.IH" [OF inRange False] by simp
      also have "\<dots> = (index \<le> j \<and> j < length ks \<and> m (ks ! j) k
           \<and> (\<forall>l. index \<le> l \<and> l < j \<longrightarrow> \<not> m (ks ! l) k))"
        unfolding shift using start by (auto simp: Suc_leD)
      finally show ?thesis .
    qed
  qed
qed

lemma arraySet_shift:
  "Suc n \<le> length xs \<Longrightarrow>
   arraySet xs (n + 1) (arrayGet xs n) = take (Suc n) xs @ (xs ! n) # drop (Suc (Suc n)) xs"
proof (cases "Suc n < length xs")
  case True
  then show ?thesis
    by (simp add: arraySet_def arrayGet_def upd_conv_take_nth_drop)
next
  case False
  assume "Suc n \<le> length xs"
  with False have "Suc n = length xs" by simp
  then show ?thesis
    by (simp add: arraySet_def arrayGet_def)
qed

lemma orderByLru_loop_eq:
  "n \<le> length xs \<Longrightarrow>
   orderByLru_loop xs n = (if n = 0 then xs else hd xs # take n xs @ drop (Suc n) xs)"
proof (induction n arbitrary: xs)
  case 0
  then show ?case by simp
next
  case (Suc n)
  define ys where "ys = arraySet xs (n + 1) (arrayGet xs n)"
  have n: "n < length xs" using Suc.prems by simp
  have ys: "ys = take (Suc n) xs @ (xs ! n) # drop (Suc (Suc n)) xs"
    unfolding ys_def using Suc.prems by (rule arraySet_shift)
  have len: "n \<le> length ys" using n by (simp add: ys)
  have tk: "take n ys = take n xs" using n by (simp add: ys min_def)
  have dr: "drop (Suc n) ys = (xs ! n) # drop (Suc (Suc n)) xs" using n by (simp add: ys min_def)
  have hd: "n \<noteq> 0 \<Longrightarrow> hd ys = hd xs" using n by (cases xs) (auto simp: ys)
  have "orderByLru_loop xs (Suc n) = orderByLru_loop ys n" by (simp add: ys_def)
  also have "\<dots> = (if n = 0 then ys else hd ys # take n ys @ drop (Suc n) ys)"
    by (rule Suc.IH [OF len])
  also have "\<dots> = hd xs # take (Suc n) xs @ drop (Suc (Suc n)) xs"
  proof (cases "n = 0")
    case True
    then show ?thesis using n by (cases xs) (auto simp: ys)
  next
    case False
    then show ?thesis using n hd tk dr by (simp add: take_Suc_conv_app_nth)
  qed
  finally show ?case by simp
qed

lemma orderByLru_eq:
  "n \<le> length xs \<Longrightarrow> orderByLru xs v n = v # take n xs @ drop (Suc n) xs"
proof (cases "n = 0")
  case True
  then show ?thesis
    by (cases xs) (simp_all add: orderByLru_def arraySet_def)
next
  case False
  assume "n \<le> length xs"
  then show ?thesis
    using False by (simp add: orderByLru_def orderByLru_loop_eq arraySet_def)
qed



section \<open>One call, case by case\<close>


lemma fire_fields [simp]:
  "keys (fire h s) = keys s" "values (fire h s) = values s" "world (fire h s) = world s"
  "trace (fire h s) = trace s @ hookCalls h (keys s) (values s)"
  by (simp_all add: fire_def)

lemma invocations_append [simp]:
  "invocations (xs @ ys) = invocations xs @ invocations ys"
  by (induction xs rule: invocations.induct) simp_all

lemma invocations_hookCalls [simp]: "invocations (hookCalls h ks vs) = []"
  by (simp add: hookCalls_def split: option.split)

lemma getKeyIndex_Nil [simp]: "getKeyIndex opts [] k = None"
  by (simp add: getKeyIndex_def getKeyIndex_loop_None)

lemma lookup_guard:
  "(if keys s \<noteq> [] then getKeyIndex opts (keys s) k else None) = getKeyIndex opts (keys s) k"
  by simp

lemma newKey_requestKey:
  "(if shouldCloneArguments opts then requestKey opts args else Array args) = requestKey opts args"
  by (simp add: shouldCloneArguments_def requestKey_def)

lemma getKeyIndex_Some:
  "getKeyIndex opts ks k = Some j \<longleftrightarrow>
     j < length ks \<and> keyMatcher opts (ks ! j) k \<and> (\<forall>l<j. \<not> keyMatcher opts (ks ! l) k)"
  by (simp add: getKeyIndex_def getKeyIndex_loop_Some)

lemma getKeyIndex_None:
  "getKeyIndex opts ks k = None \<longleftrightarrow> (\<forall>l<length ks. \<not> keyMatcher opts (ks ! l) k)"
  by (simp add: getKeyIndex_def getKeyIndex_loop_None)

lemma orderByLruCache_fields [simp]:
  "trace (orderByLruCache s key v i limit) = trace s"
  "world (orderByLruCache s key v i limit) = world s"
  by (simp_all add: orderByLruCache_def Let_def)

lemma orderByLruCache_eq:
  assumes "i \<le> length (keys s)" and "length (values s) = length (keys s)"
    and "i = 0 \<longrightarrow> keys s = []"
  shows "orderByLruCache s key v i limit =
     s\<lparr>keys := take limit (key # take i (keys s) @ drop (Suc i) (keys s)),
       values := take limit (v # take i (values s) @ drop (Suc i) (values s))\<rparr>"
proof -
  have k: "orderByLru (keys s) key i = key # take i (keys s) @ drop (Suc i) (keys s)"
    using assms(1) by (rule orderByLru_eq)
  have v: "orderByLru (values s) v i = v # take i (values s) @ drop (Suc i) (values s)"
    using assms(1,2) by (simp add: orderByLru_eq)
  show ?thesis
    using assms by (auto simp: orderByLruCache_def Let_def k v)
qed

lemma memoized_hit_front:
  assumes "getKeyIndex opts (keys s) (requestKey opts args) = Some 0"
  shows "memoized opts fn args s = (Inr (arrayGet (values s) 0), fire (onCacheHit opts) s)"
  using assms by (simp add: memoized_def lookup_guard Let_def)

lemma memoized_hit_behind:
  assumes "getKeyIndex opts (keys s) (requestKey opts args) = Some i" and "i \<noteq> 0"
  shows "memoized opts fn args s =
     (Inr (arrayGet (values (orderByLruCache (fire (onCacheHit opts) s)
               (arrayGet (keys s) i) (arrayGet (values s) i) i (maxSize opts))) 0),
      fire (onCacheChange opts)
        (orderByLruCache (fire (onCacheHit opts) s)
           (arrayGet (keys s) i) (arrayGet (values s) i) i (maxSize opts)))"
  using assms by (simp add: memoized_def lookup_guard Let_def)

lemma memoized_miss_throw:
  assumes "getKeyIndex opts (keys s) (requestKey opts args) = None"
    and "fn args (world s) = (Inl err, w)"
  shows "memoized opts fn args s =
     (Inl (Thrown err), s\<lparr>trace := trace s @ [Invoked args], world := w\<rparr>)"
  using assms by (simp add: memoized_def lookup_guard Let_def)

lemma memoized_miss_sync:
  assumes "getKeyIndex opts (keys s) (requestKey opts args) = None"
    and "fn args (world s) = (Inr newValue, w)" and "\<not> isPromise opts"
  shows "memoized opts fn args s =
     (Inr (arrayGet (values (orderByLruCache (s\<lparr>trace := trace s @ [Invoked args], world := w\<rparr>)
               (requestKey opts args) newValue (length (keys s)) (maxSize opts))) 0),
      fire (onCacheChange opts) (fire (onCacheAdd opts)
        (orderByLruCache (s\<lparr>trace := trace s @ [Invoked args], world := w\<rparr>)
           (requestKey opts args) newValue (length (keys s)) (maxSize opts))))"
  using assms by (simp add: memoized_def lookup_guard Let_def newKey_requestKey)

lemma memoized_miss_async:
  assumes "getKeyIndex opts (keys s) (requestKey opts args) = None"
    and "fn args (world s) = (Inr newValue, w)" and "isPromise opts"
  shows "memoized opts fn args s =
     (case updateAsyncCache (orderByLruCache (s\<lparr>trace := trace s @ [Invoked args], world := w\<rparr>)
               (requestKey opts args) newValue (length (keys s)) (maxSize opts)) of
        Inl err \<Rightarrow> (Inl err, orderByLruCache (s\<lparr>trace := trace s @ [Invoked args], world := w\<rparr>)
               (requestKey opts args) newValue (length (keys s)) (maxSize opts))
      | Inr handled \<Rightarrow>
          (Inr (arrayGet (values handled) 0),
           fire (onCacheChange opts) (fire (onCacheAdd opts) handled)))"
  using assms by (simp add: memoized_def lookup_guard Let_def newKey_requestKey split: sum.split)


lemma orderByLruCache_insert:
  assumes "length (values s) = length (keys s)"
  shows "orderByLruCache s key v (length (keys s)) limit =
     s\<lparr>keys := take limit (key # keys s), values := take limit (v # values s)\<rparr>"
  using orderByLruCache_eq [of "length (keys s)" s key v limit] assms by simp

lemma orderByLruCache_promote:
  assumes "length (values s) = length (keys s)" and "i < length (keys s)" and "0 < i"
  shows "orderByLruCache s key v i limit =
     s\<lparr>keys := take limit (key # take i (keys s) @ drop (Suc i) (keys s)),
       values := take limit (v # take i (values s) @ drop (Suc i) (values s))\<rparr>"
  using orderByLruCache_eq [of i s key v limit] assms by simp

lemma orderByLruCache_bounded:
  assumes "length (values s) = length (keys s)" and "i \<le> length (keys s)"
    and "length (keys s) \<le> limit"
  shows "length (values (orderByLruCache s key v i limit))
           = length (keys (orderByLruCache s key v i limit))
         \<and> length (keys (orderByLruCache s key v i limit)) \<le> limit"
proof (cases "i = 0 \<and> keys s \<noteq> []")
  case True
  then show ?thesis using assms by (simp add: orderByLruCache_def)
next
  case False
  then have "i = 0 \<longrightarrow> keys s = []" by auto
  from orderByLruCache_eq [OF assms(2) assms(1) this, of key v limit] assms(1)
  show ?thesis by simp
qed

lemma setPromiseHandler_fields:
  assumes "setPromiseHandler s = Inr s'"
  shows "keys s' = keys s" and "length (values s') = length (values s)"
    and "trace s' = trace s" and "world s' = world s"
    and "values s \<noteq> []" and "isThenable (hd (values s))"
    and "values s' = Handled (hd (values s)) (arrayGet (keys s) 0) # tl (values s)"
  using assms
  by (cases "values s"; auto simp: setPromiseHandler_def Let_def arrayGet_def arraySet_def
        split: if_splits)+

lemma setPromiseHandler_Inl:
  assumes "setPromiseHandler s = Inl err"
  shows "err = TypeError" and "\<not> isThenable (arrayGet (values s) 0)"
  using assms by (auto simp: setPromiseHandler_def Let_def split: if_splits)


lemma splice1_length: "length (splice1 xs i) = (if i < length xs then length xs - 1 else length xs)"
  by (auto simp: splice1_def)

lemma onRejected_bounded:
  assumes "length (values s) = length (keys s)" and "length (keys s) \<le> limit"
  shows "length (values (snd (onRejected locate key s err)))
           = length (keys (snd (onRejected locate key s err)))
         \<and> length (keys (snd (onRejected locate key s err))) \<le> limit"
  using assms by (auto simp: onRejected_def splice1_length split: option.split)

lemma asyncSettle_bounded:
  assumes "length (values s) = length (keys s)" and "length (keys s) \<le> limit"
  shows "length (values (snd (asyncSettle opts key result s)))
           = length (keys (snd (asyncSettle opts key result s)))
         \<and> length (keys (snd (asyncSettle opts key result s))) \<le> limit"
proof (cases result)
  case (Fulfilled v)
  then show ?thesis using assms by (simp add: asyncSettle_def)
next
  case (Rejected err)
  then show ?thesis
    using onRejected_bounded [OF assms] by (simp add: asyncSettle_def)
qed

lemma memoized_miss_store:
  fixes fn :: "('a, 'e, 'w) wrapped" and s :: "('a, 'h, 'w) state"
  assumes miss: "getKeyIndex opts (keys s) (requestKey opts args) = None"
    and ok: "fn args (world s) = (Inr newValue, w)"
    and len: "length (values s) = length (keys s)"
  shows "keys (snd (memoized opts fn args s)) = take (maxSize opts) (requestKey opts args # keys s)"
    and "values (snd (memoized opts fn args s)) =
           take (maxSize opts)
             ((if isPromise opts \<and> isThenable newValue
               then Handled newValue (requestKey opts args) else newValue) # values s)"
proof -
  define called where "called = s\<lparr>trace := trace s @ [Invoked args], world := w\<rparr>"
  define stored where "stored = orderByLruCache called (requestKey opts args) newValue
                                   (length (keys s)) (maxSize opts)"
  define V where "V = (if isPromise opts \<and> isThenable newValue
               then Handled newValue (requestKey opts args) else newValue)"
  have stored: "stored = called\<lparr>keys := take (maxSize opts) (requestKey opts args # keys s),
                                values := take (maxSize opts) (newValue # values s)\<rparr>"
    unfolding stored_def using orderByLruCache_insert [of called "requestKey opts args" newValue]
    by (simp add: called_def len)
  have "keys (snd (memoized opts fn args s)) = take (maxSize opts) (requestKey opts args # keys s)
        \<and> values (snd (memoized opts fn args s)) = take (maxSize opts) (V # values s)"
  proof (cases "isPromise opts")
    case False
    have "memoized opts fn args s =
       (Inr (arrayGet (values stored) 0), fire (onCacheChange opts) (fire (onCacheAdd opts) stored))"
      unfolding stored_def called_def using miss ok False by (rule memoized_miss_sync)
    then show ?thesis
      using False by (simp add: stored V_def)
  next
    case True
    have m: "memoized opts fn args s =
       (case updateAsyncCache stored of
          Inl err \<Rightarrow> (Inl err, stored)
        | Inr handled \<Rightarrow>
            (Inr (arrayGet (values handled) 0),
             fire (onCacheChange opts) (fire (onCacheAdd opts) handled)))"
      unfolding stored_def called_def using miss ok True by (rule memoized_miss_async)
    show ?thesis
    proof (cases "updateAsyncCache stored :: 'e error + ('a, 'h, 'w) state")
      case (Inl err)
      then have "\<not> isThenable (arrayGet (values stored) 0)"
        by (simp add: updateAsyncCache_def setPromiseHandler_Inl(2))
      then have "maxSize opts = 0 \<or> \<not> isThenable newValue"
        by (cases "maxSize opts") (auto simp: stored arrayGet_def)
      then have "take (maxSize opts) (V # values s) = take (maxSize opts) (newValue # values s)"
        by (auto simp: V_def)
      then show ?thesis
        using m Inl by (simp add: stored)
    next
      case (Inr handled)
      then have h: "setPromiseHandler stored = (Inr handled :: 'e error + ('a, 'h, 'w) state)"
        by (simp add: updateAsyncCache_def)
      have ks: "keys handled = keys stored" and ne: "values stored \<noteq> []"
        and th: "isThenable (hd (values stored))"
        and vs: "values handled
                 = Handled (hd (values stored)) (arrayGet (keys stored) 0) # tl (values stored)"
        using setPromiseHandler_fields [OF h] by simp_all
      from ne obtain n where n: "maxSize opts = Suc n"
        by (cases "maxSize opts") (auto simp: stored)
      have "isThenable newValue" using th by (simp add: stored n)
      then have "values handled = take (maxSize opts) (V # values s)"
        using vs True by (simp add: stored n arrayGet_def V_def)
      then show ?thesis
        using m Inr ks by (simp add: stored)
    qed
  qed
  then show "keys (snd (memoized opts fn args s)) = take (maxSize opts) (requestKey opts args # keys s)"
    and "values (snd (memoized opts fn args s)) =
           take (maxSize opts)
             ((if isPromise opts \<and> isThenable newValue
               then Handled newValue (requestKey opts args) else newValue) # values s)"
    by (simp_all add: V_def)
qed


lemma memoized_bounded:
  fixes fn :: "('a, 'e, 'w) wrapped" and s :: "('a, 'h, 'w) state"
  assumes len: "length (values s) = length (keys s)" and bound: "length (keys s) \<le> maxSize opts"
  shows "length (values (snd (memoized opts fn args s)))
           = length (keys (snd (memoized opts fn args s)))
         \<and> length (keys (snd (memoized opts fn args s))) \<le> maxSize opts"
proof (cases "getKeyIndex opts (keys s) (requestKey opts args)")
  case None
  obtain result w where call: "fn args (world s) = (result, w)"
    by (cases "fn args (world s)")
  show ?thesis
  proof (cases result)
    case (Inl err)
    with None call len bound show ?thesis
      by (simp add: memoized_miss_throw)
  next
    case (Inr newValue)
    with call have ok: "fn args (world s) = (Inr newValue, w)" by simp
    show ?thesis
      using memoized_miss_store [of opts s args fn newValue w] None ok len by simp
  qed
next
  case (Some i)
  show ?thesis
  proof (cases "i = 0")
    case True
    with Some len bound show ?thesis
      by (simp add: memoized_hit_front)
  next
    case False
    from Some have i: "i \<le> length (keys (fire (onCacheHit opts) s))"
      by (simp add: getKeyIndex_Some)
    have "length (values (fire (onCacheHit opts) s)) = length (keys (fire (onCacheHit opts) s))"
      and "length (keys (fire (onCacheHit opts) s)) \<le> maxSize opts"
      using len bound by simp_all
    from orderByLruCache_bounded [OF this(1) i this(2),
        of "arrayGet (keys s) i" "arrayGet (values s) i"]
    show ?thesis
      using memoized_hit_behind [OF Some False, of fn] by simp
  qed
qed

lemma step_bounded:
  fixes fn :: "('a, 'e, 'w) wrapped" and s :: "('a, 'h, 'w) state"
  assumes "length (values s) = length (keys s)" and "length (keys s) \<le> maxSize opts"
  shows "length (values (step opts fn s act)) = length (keys (step opts fn s act))
         \<and> length (keys (step opts fn s act)) \<le> maxSize opts"
proof (cases act)
  case (Call args)
  then show ?thesis
    using memoized_bounded [OF assms] by (simp add: step_def)
next
  case (Settle key result)
  then show ?thesis
    using asyncSettle_bounded [OF assms] by (simp add: step_def)
qed

lemma run_bounded:
  fixes fn :: "('a, 'e, 'w) wrapped" and s :: "('a, 'h, 'w) state"
  assumes "length (values s) = length (keys s)" and "length (keys s) \<le> maxSize opts"
  shows "length (values (run opts fn s acts)) = length (keys (run opts fn s acts))
         \<and> length (keys (run opts fn s acts)) \<le> maxSize opts"
  using assms
proof (induction acts arbitrary: s)
  case Nil
  then show ?case by (simp add: run_def)
next
  case (Cons act acts)
  have "run opts fn s (act # acts) = run opts fn (step opts fn s act) acts"
    by (simp add: run_def)
  moreover have "length (values (step opts fn s act)) = length (keys (step opts fn s act))"
    and "length (keys (step opts fn s act)) \<le> maxSize opts"
    using step_bounded [OF Cons.prems, of fn act] by simp_all
  ultimately show ?case
    using Cons.IH by simp
qed


lemma hd_orderByLru [simp]: "hd (orderByLru xs v n) = v"
  by (cases "orderByLru_loop xs n") (simp_all add: orderByLru_def arraySet_def)

lemma orderByLru_nonempty [simp]: "orderByLru xs v n \<noteq> []"
  by (cases "orderByLru_loop xs n") (simp_all add: orderByLru_def arraySet_def)

lemma memoized_miss_returns:
  fixes fn :: "('a, 'e, 'w) wrapped" and s :: "('a, 'h, 'w) state"
  assumes miss: "getKeyIndex opts (keys s) (requestKey opts args) = None"
    and ret: "memoized opts fn args s = (Inr v, s')"
  obtains newValue w stored where "fn args (world s) = (Inr newValue, w)"
    and "s' = fire (onCacheChange opts) (fire (onCacheAdd opts) stored)"
    and "trace stored = trace s @ [Invoked args]" and "world stored = w"
    and "v = arrayGet (values stored) 0"
    and "isPromise opts \<longrightarrow> isThenable newValue"
proof -
  obtain result w where call: "fn args (world s) = (result, w)"
    by (cases "fn args (world s)")
  show thesis
  proof (cases result)
    case (Inl err)
    with miss call ret show thesis
      by (simp add: memoized_miss_throw)
  next
    case (Inr newValue)
    with call have ok: "fn args (world s) = (Inr newValue, w)" by simp
    define stored where "stored = orderByLruCache (s\<lparr>trace := trace s @ [Invoked args], world := w\<rparr>)
           (requestKey opts args) newValue (length (keys s)) (maxSize opts)"
    have tr: "trace stored = trace s @ [Invoked args]" and wo: "world stored = w"
      by (simp_all add: stored_def)
    show thesis
    proof (cases "isPromise opts")
      case False
      have "memoized opts fn args s =
         (Inr (arrayGet (values stored) 0), fire (onCacheChange opts) (fire (onCacheAdd opts) stored))"
        unfolding stored_def using miss ok False by (rule memoized_miss_sync)
      with ret have s': "s' = fire (onCacheChange opts) (fire (onCacheAdd opts) stored)"
        and v: "v = arrayGet (values stored) 0" by simp_all
      from False have "isPromise opts \<longrightarrow> isThenable newValue" by simp
      with ok s' tr wo v show thesis by (rule that)
    next
      case True
      have m: "memoized opts fn args s =
         (case updateAsyncCache stored of
            Inl err \<Rightarrow> (Inl err, stored)
          | Inr handled \<Rightarrow>
              (Inr (arrayGet (values handled) 0),
               fire (onCacheChange opts) (fire (onCacheAdd opts) handled)))"
        unfolding stored_def using miss ok True by (rule memoized_miss_async)
      show thesis
      proof (cases "updateAsyncCache stored :: 'e error + ('a, 'h, 'w) state")
        case (Inl err)
        with m ret show thesis by simp
      next
        case (Inr handled)
        then have h: "setPromiseHandler stored = (Inr handled :: 'e error + ('a, 'h, 'w) state)"
          by (simp add: updateAsyncCache_def)
        from m Inr ret have s': "s' = fire (onCacheChange opts) (fire (onCacheAdd opts) handled)"
          and v: "v = arrayGet (values handled) 0" by simp_all
        have trh: "trace handled = trace s @ [Invoked args]" and woh: "world handled = w"
          using setPromiseHandler_fields(3,4) [OF h] tr wo by simp_all
        have "isThenable (hd (values stored))" and ne: "values stored \<noteq> []"
          using setPromiseHandler_fields(5,6) [OF h] by simp_all
        moreover have "values (s\<lparr>trace := trace s @ [Invoked args], world := w\<rparr>) = values s"
          by simp
        have "hd (values stored) = newValue"
        proof (cases "length (keys s) = 0 \<and> keys s \<noteq> []")
          case True
          then show ?thesis by simp
        next
          case False
          have "values stored = (let newKeys = orderByLru (keys s) (requestKey opts args) (length (keys s));
                newValues = orderByLru (values s) newValue (length (keys s))
            in if length newKeys > maxSize opts then take (maxSize opts) newValues else newValues)"
            by (simp add: stored_def orderByLruCache_def Let_def)
          then show ?thesis
            using ne by (auto simp: Let_def hd_take split: if_splits)
        qed
        ultimately have "isPromise opts \<longrightarrow> isThenable newValue" by simp
        with ok s' trh woh v show thesis by (rule that)
      qed
    qed
  qed
qed


lemma memoized_hit_cases:
  fixes fn :: "('a, 'e, 'w) wrapped" and s :: "('a, 'h, 'w) state"
  assumes hit: "getKeyIndex opts (keys s) (requestKey opts args) = Some i"
  shows "fst (memoized opts fn args s) = Inr (arrayGet (values (snd (memoized opts fn args s))) 0)
    \<and> world (snd (memoized opts fn args s)) = world s
    \<and> invocations (trace (snd (memoized opts fn args s))) = invocations (trace s)"
proof (cases "i = 0")
  case True
  with hit have "memoized opts fn args s = (Inr (arrayGet (values s) 0), fire (onCacheHit opts) s)"
    by (simp add: memoized_hit_front)
  then show ?thesis by simp
next
  case False
  show ?thesis
    using memoized_hit_behind [OF hit False, of fn] by simp
qed

lemma memoized_returns_front:
  fixes fn :: "('a, 'e, 'w) wrapped" and s :: "('a, 'h, 'w) state"
  assumes ret: "memoized opts fn args s = (Inr v, s')"
  shows "v = arrayGet (values s') 0"
proof (cases "getKeyIndex opts (keys s) (requestKey opts args)")
  case None
  from memoized_miss_returns [OF None ret] show ?thesis
    by (metis fire_fields(2))
next
  case (Some i)
  from memoized_hit_cases [OF Some, of fn] ret show ?thesis by simp
qed


lemma memoized_front_entry:
  fixes fn :: "('a, 'e, 'w) wrapped" and s :: "('a, 'h, 'w) state"
  assumes cap: "1 \<le> maxSize opts" and len: "length (values s) = length (keys s)"
    and ret: "memoized opts fn args s = (Inr v, s')"
  shows "keys s' \<noteq> [] \<and> values s' \<noteq> [] \<and> v = values s' ! 0
    \<and> (case getKeyIndex opts (keys s) (requestKey opts args) of
          Some j \<Rightarrow> keys s' ! 0 = keys s ! j \<and> values s' ! 0 = values s ! j
        | None \<Rightarrow> keys s' ! 0 = requestKey opts args
            \<and> (\<exists>newValue. fst (fn args (world s)) = Inr newValue
                  \<and> values s' ! 0 = (if isPromise opts
                        then Handled newValue (requestKey opts args) else newValue)))"
proof -
  obtain n where n: "maxSize opts = Suc n"
    using cap by (cases "maxSize opts") simp_all
  have v: "v = arrayGet (values s') 0"
    using ret by (rule memoized_returns_front)
  show ?thesis
  proof (cases "getKeyIndex opts (keys s) (requestKey opts args)")
    case None
    from memoized_miss_returns [OF None ret]
    obtain newValue w where ok: "fn args (world s) = (Inr newValue, w)"
      and th: "isPromise opts \<longrightarrow> isThenable newValue"
      by metis
    have "keys s' = take (maxSize opts) (requestKey opts args # keys s)"
      and "values s' = take (maxSize opts)
             ((if isPromise opts \<and> isThenable newValue
               then Handled newValue (requestKey opts args) else newValue) # values s)"
      using memoized_miss_store [of opts s args fn newValue w] None ok len ret by simp_all
    with th ok v None show ?thesis
      by (auto simp: n arrayGet_def)
  next
    case (Some j)
    then have j: "j < length (keys s)" by (simp add: getKeyIndex_Some)
    show ?thesis
    proof (cases "j = 0")
      case True
      with Some ret have "s' = fire (onCacheHit opts) s"
        by (simp add: memoized_hit_front)
      with v Some True j len show ?thesis
        by (auto simp: arrayGet_def)
    next
      case False
      let ?hit = "fire (onCacheHit opts) s"
      have "orderByLruCache ?hit (arrayGet (keys s) j) (arrayGet (values s) j) j (maxSize opts) =
           ?hit\<lparr>keys := take (maxSize opts) (arrayGet (keys s) j # take j (keys ?hit) @ drop (Suc j) (keys ?hit)),
                values := take (maxSize opts) (arrayGet (values s) j # take j (values ?hit) @ drop (Suc j) (values ?hit))\<rparr>"
        using j len False by (intro orderByLruCache_promote) simp_all
      with memoized_hit_behind [OF Some False, of fn] ret
      have "keys s' = take (maxSize opts) (arrayGet (keys s) j # take j (keys s) @ drop (Suc j) (keys s))"
        and "values s' = take (maxSize opts) (arrayGet (values s) j # take j (values s) @ drop (Suc j) (values s))"
        by auto
      with v Some j len show ?thesis
        by (auto simp: n arrayGet_def)
    qed
  qed
qed

lemma moved_to_front_nth:
  assumes "0 < i" and "i < length xs"
  shows "length (x # take i xs @ drop (Suc i) xs) = length xs"
    and "(x # take i xs @ drop (Suc i) xs) ! 0 = x"
    and "\<forall>j<i. (x # take i xs @ drop (Suc i) xs) ! Suc j = xs ! j"
    and "\<forall>j. i < j \<and> j < length xs \<longrightarrow> (x # take i xs @ drop (Suc i) xs) ! j = xs ! j"
proof -
  show "length (x # take i xs @ drop (Suc i) xs) = length xs"
    using assms by simp
  show "(x # take i xs @ drop (Suc i) xs) ! 0 = x" by simp
  show "\<forall>j<i. (x # take i xs @ drop (Suc i) xs) ! Suc j = xs ! j"
    using assms by (simp add: nth_append)
  show "\<forall>j. i < j \<and> j < length xs \<longrightarrow> (x # take i xs @ drop (Suc i) xs) ! j = xs ! j"
  proof (intro allI impI)
    fix j
    assume j: "i < j \<and> j < length xs"
    then obtain k where k: "j = Suc k" by (cases j) simp_all
    with j have "i \<le> k" and "k < length xs" by simp_all
    then have "(take i xs @ drop (Suc i) xs) ! k = drop (Suc i) xs ! (k - i)"
      using assms by (simp add: nth_append min_def)
    also have "\<dots> = xs ! (Suc i + (k - i))"
      using \<open>i \<le> k\<close> \<open>k < length xs\<close> j k by (intro nth_drop) simp
    also have "\<dots> = xs ! j"
      using \<open>i \<le> k\<close> k by simp
    finally show "(x # take i xs @ drop (Suc i) xs) ! j = xs ! j"
      using k by simp
  qed
qed

lemma memoized_first_call_trace:
  fixes fn :: "('a, 'e, 'w) wrapped" and s :: "('a, 'h, 'w) state"
  assumes ret: "memoized opts fn args s = (Inr v, s')"
  shows "invocations (trace s') = invocations (trace s)
           @ (if getKeyIndex opts (keys s) (requestKey opts args) = None then [args] else [])"
proof (cases "getKeyIndex opts (keys s) (requestKey opts args)")
  case None
  from memoized_miss_returns [OF None ret]
  obtain stored :: "('a, 'h, 'w) state"
    where "s' = fire (onCacheChange opts) (fire (onCacheAdd opts) stored)"
      and "trace stored = trace s @ [Invoked args]"
    by metis
  with None show ?thesis by simp
next
  case (Some i)
  from memoized_hit_cases [OF Some, of fn] ret Some show ?thesis by simp
qed


lemma memoized_miss_invokes:
  fixes fn :: "('a, 'e, 'w) wrapped" and s :: "('a, 'h, 'w) state"
  assumes miss: "getKeyIndex opts (keys s) (requestKey opts args) = None"
  shows "invocations (trace (snd (memoized opts fn args s))) = invocations (trace s) @ [args]
    \<and> world (snd (memoized opts fn args s)) = snd (fn args (world s))"
proof -
  obtain result w where call: "fn args (world s) = (result, w)"
    by (cases "fn args (world s)")
  show ?thesis
  proof (cases result)
    case (Inl err)
    with miss call show ?thesis
      by (simp add: memoized_miss_throw)
  next
    case (Inr newValue)
    with call have ok: "fn args (world s) = (Inr newValue, w)" by simp
    define stored where "stored = orderByLruCache (s\<lparr>trace := trace s @ [Invoked args], world := w\<rparr>)
           (requestKey opts args) newValue (length (keys s)) (maxSize opts)"
    have tr: "trace stored = trace s @ [Invoked args]" and wo: "world stored = w"
      by (simp_all add: stored_def)
    show ?thesis
    proof (cases "isPromise opts")
      case False
      have "memoized opts fn args s =
         (Inr (arrayGet (values stored) 0), fire (onCacheChange opts) (fire (onCacheAdd opts) stored))"
        unfolding stored_def using miss ok False by (rule memoized_miss_sync)
      then show ?thesis using tr wo ok by simp
    next
      case True
      have m: "memoized opts fn args s =
         (case updateAsyncCache stored of
            Inl err \<Rightarrow> (Inl err, stored)
          | Inr handled \<Rightarrow>
              (Inr (arrayGet (values handled) 0),
               fire (onCacheChange opts) (fire (onCacheAdd opts) handled)))"
        unfolding stored_def using miss ok True by (rule memoized_miss_async)
      show ?thesis
      proof (cases "updateAsyncCache stored :: 'e error + ('a, 'h, 'w) state")
        case (Inl err)
        with m tr wo ok show ?thesis by simp
      next
        case (Inr handled)
        then have h: "setPromiseHandler stored = (Inr handled :: 'e error + ('a, 'h, 'w) state)"
          by (simp add: updateAsyncCache_def)
        have "trace handled = trace s @ [Invoked args]" and "world handled = w"
          using setPromiseHandler_fields(3,4) [OF h] tr wo by simp_all
        with m Inr ok show ?thesis by simp
      qed
    qed
  qed
qed



lemma settle_Fulfilled:
  "settle hitHook changeHook locate key (Fulfilled v) s = onFulfilled hitHook changeHook s v"
  by (simp add: settle_def)




lemma getKeyIndex_elementwise:
  assumes "isMatchingKey opts = None"
  shows "getKeyIndex opts (map Array allKeys) (Array key)
           = createGetKeyIndex (isEqual opts) allKeys key"
proof -
  have "getKeyIndex_loop (keyMatcher opts) (map Array allKeys) (Array key) index
        = getKeyIndex_loop (areKeysEqual (isEqual opts)) allKeys key index" for index
  proof (induction "length allKeys - index" arbitrary: index)
    case 0
    then show ?case
      by (subst (1 2) getKeyIndex_loop.simps) simp
  next
    case (Suc n)
    then have "n = length allKeys - (index + 1)" and "index < length allKeys" by simp_all
    with Suc.hyps(1) [of "index + 1"] assms show ?case
      by (subst (1 2) getKeyIndex_loop.simps) (simp add: keyMatcher_def)
  qed
  then show ?thesis
    by (simp add: getKeyIndex_def createGetKeyIndex_def)
qed

lemma orderByLru_length:
  "n \<le> length xs \<Longrightarrow> length (orderByLru xs v n) = (if n < length xs then length xs else Suc (length xs))"
  by (auto simp: orderByLru_eq)

lemma asyncSettle_settle:
  assumes "onCacheHit opts = Some hitHook" and "onCacheChange opts = Some changeHook"
  shows "asyncSettle opts key result s = settle hitHook changeHook (getKeyIndex opts) key result s"
  using assms
  by (cases result)
     (simp_all add: asyncSettle_def settle_def onFulfilled_def fire_def hookCalls_def)

lemma keyMatcher_whole:
  "isMatchingKey opts = Some matchingKey \<Longrightarrow> keyMatcher opts = matchingKey"
  by (rule ext, rule ext) (simp add: keyMatcher_def)


section \<open>No duplicate keys\<close>












section \<open>Calls that raise\<close>

text \<open>
  A call raises in two ways only, both on a miss: the wrapped function throws, and nothing
  is stored; or \<^verbatim>\<open>isPromise\<close> is set and attaching to the stored value is a TypeError, and
  the call ends there, with the entry stored and before any hook.
\<close>

lemma memoized_raises:
  fixes fn :: "('a, 'e, 'w) wrapped" and s :: "('a, 'h, 'w) state"
  assumes raised: "memoized opts fn args s = (Inl e, s')"
  shows "getKeyIndex opts (keys s) (requestKey opts args) = None
    \<and> (case e of
          Thrown err \<Rightarrow>
            (\<exists>w. fn args (world s) = (Inl err, w)
               \<and> s' = s\<lparr>trace := trace s @ [Invoked args], world := w\<rparr>)
        | TypeError \<Rightarrow>
            isPromise opts
            \<and> (\<exists>newValue w. fn args (world s) = (Inr newValue, w)
                 \<and> s' = orderByLruCache (s\<lparr>trace := trace s @ [Invoked args], world := w\<rparr>)
                          (requestKey opts args) newValue (length (keys s)) (maxSize opts)
                 \<and> \<not> isThenable (arrayGet (values s') 0)))"
proof (cases "getKeyIndex opts (keys s) (requestKey opts args)")
  case (Some i)
  from memoized_hit_cases [OF Some, of fn] raised show ?thesis by simp
next
  case None
  obtain result w where call: "fn args (world s) = (result, w)"
    by (cases "fn args (world s)")
  show ?thesis
  proof (cases result)
    case (Inl err)
    with call have "fn args (world s) = (Inl err, w)" by simp
    with None raised show ?thesis
      by (auto simp: memoized_miss_throw)
  next
    case (Inr newValue)
    with call have ok: "fn args (world s) = (Inr newValue, w)" by simp
    define stored where "stored = orderByLruCache (s\<lparr>trace := trace s @ [Invoked args], world := w\<rparr>)
           (requestKey opts args) newValue (length (keys s)) (maxSize opts)"
    show ?thesis
    proof (cases "isPromise opts")
      case False
      have "memoized opts fn args s =
         (Inr (arrayGet (values stored) 0), fire (onCacheChange opts) (fire (onCacheAdd opts) stored))"
        unfolding stored_def using None ok False by (rule memoized_miss_sync)
      with raised show ?thesis by simp
    next
      case True
      have m: "memoized opts fn args s =
         (case updateAsyncCache stored of
            Inl err \<Rightarrow> (Inl err, stored)
          | Inr handled \<Rightarrow>
              (Inr (arrayGet (values handled) 0),
               fire (onCacheChange opts) (fire (onCacheAdd opts) handled)))"
        unfolding stored_def using None ok True by (rule memoized_miss_async)
      show ?thesis
      proof (cases "updateAsyncCache stored :: 'e error + ('a, 'h, 'w) state")
        case (Inr handled)
        with m raised show ?thesis by simp
      next
        case (Inl err)
        then have h: "setPromiseHandler stored = (Inl err :: 'e error + ('a, 'h, 'w) state)"
          by (simp add: updateAsyncCache_def)
        from m Inl raised have e: "e = err" and s': "s' = stored" by simp_all
        from setPromiseHandler_Inl [OF h]
        have "err = TypeError" and "\<not> isThenable (arrayGet (values stored) 0)" by simp_all
        with e s' None True ok show ?thesis
          by (auto simp: stored_def)
      qed
    qed
  qed
qed

section \<open>The size of the store\<close>

text \<open>
  C1. Over any sequence of calls (and of promise settlements in between), starting from
  the empty cache, the store never holds more than \<^verbatim>\<open>maxSize\<close> entries and the two
  sequences stay in step. A call that finds no entry and whose wrapped function returns
  puts the new key and value in front and keeps the first \<^verbatim>\<open>maxSize\<close> entries of each
  sequence: what is cut off is the tail of both.
\<close>

theorem store_never_exceeds_maxSize:
  fixes fn :: "('a, 'e, 'w) wrapped" and s :: "('a, 'h, 'w) state"
  shows "length (keys (run opts fn (emptyCache w0 :: ('a, 'h, 'w) state) acts)) \<le> maxSize opts
    \<and> length (values (run opts fn (emptyCache w0 :: ('a, 'h, 'w) state) acts))
        = length (keys (run opts fn (emptyCache w0 :: ('a, 'h, 'w) state) acts))
    \<and> (length (values s) = length (keys s)
        \<and> getKeyIndex opts (keys s) (requestKey opts args) = None
        \<and> fn args (world s) = (Inr newValue, w)
       \<longrightarrow> keys (snd (memoized opts fn args s))
             = take (maxSize opts) (requestKey opts args # keys s)
         \<and> values (snd (memoized opts fn args s))
             = take (maxSize opts)
                 ((if isPromise opts \<and> isThenable newValue
                   then Handled newValue (requestKey opts args) else newValue) # values s))"
proof -
  have "length (values (emptyCache w0 :: ('a, 'h, 'w) state)) = length (keys (emptyCache w0 :: ('a, 'h, 'w) state))"
    and "length (keys (emptyCache w0 :: ('a, 'h, 'w) state)) \<le> maxSize opts"
    by (simp_all add: emptyCache_def)
  from run_bounded [OF this, of fn acts] show ?thesis
    using memoized_miss_store [of opts s args fn newValue w] by simp
qed

theorem store_never_exceeds_maxSize_witness:
  "length (keys (run exampleOptions counter (emptyCache 0)
      [Call [Atom 1], Call [Atom 2], Call [Atom 1], Call [Atom 3]])) \<le> 2
   \<and> keys (snd (memoized exampleOptions counter [Atom 3] twoEntries))
       = [Array [Atom 3], Array [Atom 1]]
   \<and> values (snd (memoized exampleOptions counter [Atom 3] twoEntries)) = [Atom 2, Atom 0]"
proof -
  have h: "length (values twoEntries) = length (keys twoEntries)
      \<and> getKeyIndex exampleOptions (keys twoEntries) (requestKey exampleOptions [Atom 3]) = None
      \<and> counter [Atom 3] (world twoEntries) = (Inr (Atom 2), 3)"
    by code_simp
  have given: "maxSize exampleOptions = 2" "isPromise exampleOptions = False"
    "requestKey exampleOptions [Atom 3] = Array [Atom 3]"
    "keys twoEntries = [Array [Atom 1], Array [Atom 2]]" "values twoEntries = [Atom 0, Atom 1]"
    by (simp_all add: exampleOptions_def twoEntries_def requestKey_def)
  show ?thesis
    using store_never_exceeds_maxSize [where opts = exampleOptions and fn = counter and ?w0.0 = 0
        and acts = "[Call [Atom 1], Call [Atom 2], Call [Atom 1], Call [Atom 3]]"
        and s = twoEntries and args = "[Atom 3]" and newValue = "Atom 2" and w = 3] h
    by (simp add: given)
qed

section \<open>Two calls in a row\<close>

text \<open>
  C2 (amended). When a call returns and the next call's key matches the key of the entry
  the first call left at the front, the second call does not invoke the wrapped function:
  it returns the identical value and does nothing but fire the hit hook. Over the two
  calls the wrapped function is invoked once if the first call found no entry (its key is
  then the one at the front), and not at all otherwise. When the wrapped function throws
  in the first call, that call was a miss and stores nothing: keys and values are as
  before, and the next call with the same key invokes the wrapped function again.
\<close>

theorem second_call_is_a_hit:
  fixes fn :: "('a, 'e, 'w) wrapped" and s :: "('a, 'h, 'w) state"
  shows "(1 \<le> maxSize opts \<and> length (values s) = length (keys s)
          \<and> memoized opts fn args s = (Inr v, s')
          \<and> keyMatcher opts (keys s' ! 0) (requestKey opts args')
         \<longrightarrow> memoized opts fn args' s' = (Inr v, fire (onCacheHit opts) s')
            \<and> trace (fire (onCacheHit opts) s')
                = trace s' @ hookCalls (onCacheHit opts) (keys s') (values s')
            \<and> invocations (trace (fire (onCacheHit opts) s'))
                = invocations (trace s)
                  @ (if getKeyIndex opts (keys s) (requestKey opts args) = None
                     then [args] else [])
            \<and> (getKeyIndex opts (keys s) (requestKey opts args) = None
                \<longrightarrow> keys s' ! 0 = requestKey opts args))
    \<and> (memoized opts fn args s = (Inl (Thrown err), s')
         \<longrightarrow> getKeyIndex opts (keys s) (requestKey opts args) = None
            \<and> keys s' = keys s \<and> values s' = values s
            \<and> invocations (trace s') = invocations (trace s) @ [args]
            \<and> (requestKey opts args' = requestKey opts args
                \<longrightarrow> invocations (trace (snd (memoized opts fn args' s')))
                      = invocations (trace s) @ [args, args']))"
proof (intro conjI impI)
  assume returned: "1 \<le> maxSize opts \<and> length (values s) = length (keys s)
          \<and> memoized opts fn args s = (Inr v, s')
          \<and> keyMatcher opts (keys s' ! 0) (requestKey opts args')"
  then have cap: "1 \<le> maxSize opts" and len: "length (values s) = length (keys s)"
    and first: "memoized opts fn args s = (Inr v, s')"
    and matches: "keyMatcher opts (keys s' ! 0) (requestKey opts args')"
    by simp_all
  from memoized_front_entry [OF cap len first]
  have ne: "keys s' \<noteq> []" and v: "v = values s' ! 0" and vne: "values s' \<noteq> []"
    and front: "getKeyIndex opts (keys s) (requestKey opts args) = None
        \<longrightarrow> keys s' ! 0 = requestKey opts args"
    by (auto split: option.splits)
  from ne matches have "getKeyIndex opts (keys s') (requestKey opts args') = Some 0"
    by (simp add: getKeyIndex_Some)
  then have "memoized opts fn args' s' = (Inr (arrayGet (values s') 0), fire (onCacheHit opts) s')"
    by (rule memoized_hit_front)
  moreover have "arrayGet (values s') 0 = v"
    using v vne by (simp add: arrayGet_def)
  ultimately show "memoized opts fn args' s' = (Inr v, fire (onCacheHit opts) s')"
    by simp
  show "trace (fire (onCacheHit opts) s')
          = trace s' @ hookCalls (onCacheHit opts) (keys s') (values s')"
    by simp
  show "invocations (trace (fire (onCacheHit opts) s'))
          = invocations (trace s)
            @ (if getKeyIndex opts (keys s) (requestKey opts args) = None then [args] else [])"
    using memoized_first_call_trace [OF first] by simp
  assume "getKeyIndex opts (keys s) (requestKey opts args) = None"
  with front show "keys s' ! 0 = requestKey opts args" by simp
next
  assume thrown: "memoized opts fn args s = (Inl (Thrown err), s')"
  from memoized_raises [OF thrown]
  have miss: "getKeyIndex opts (keys s) (requestKey opts args) = None"
    and "\<exists>w. fn args (world s) = (Inl err, w)
           \<and> s' = s\<lparr>trace := trace s @ [Invoked args], world := w\<rparr>"
    by simp_all
  then obtain w where after: "s' = s\<lparr>trace := trace s @ [Invoked args], world := w\<rparr>"
    by blast
  from miss show "getKeyIndex opts (keys s) (requestKey opts args) = None" .
  from after show same_keys: "keys s' = keys s" by simp
  from after show "values s' = values s" by simp
  from after show once: "invocations (trace s') = invocations (trace s) @ [args]" by simp
  assume "requestKey opts args' = requestKey opts args"
  with miss same_keys have "getKeyIndex opts (keys s') (requestKey opts args') = None"
    by simp
  from memoized_miss_invokes [OF this, of fn] once
  show "invocations (trace (snd (memoized opts fn args' s')))
          = invocations (trace s) @ [args, args']"
    by simp
qed

theorem second_call_is_a_hit_witness:
  "memoized exampleOptions counter [Atom 3]
       (snd (memoized exampleOptions counter [Atom 3] twoEntries))
     = (Inr (Atom 2), fire (onCacheHit exampleOptions)
                        (snd (memoized exampleOptions counter [Atom 3] twoEntries)))
   \<and> invocations (trace (fire (onCacheHit exampleOptions)
                        (snd (memoized exampleOptions counter [Atom 3] twoEntries))))
     = [[Atom 3]]
   \<and> keys (snd (memoized exampleOptions failing [Atom 4] twoEntries)) = keys twoEntries
   \<and> values (snd (memoized exampleOptions failing [Atom 4] twoEntries)) = values twoEntries
   \<and> invocations (trace (snd (memoized exampleOptions failing [Atom 4]
                        (snd (memoized exampleOptions failing [Atom 4] twoEntries)))))
     = [[Atom 4], [Atom 4]]"
proof -
  have returned: "1 \<le> maxSize exampleOptions
      \<and> length (values twoEntries) = length (keys twoEntries)
      \<and> memoized exampleOptions counter [Atom 3] twoEntries
          = (Inr (Atom 2), snd (memoized exampleOptions counter [Atom 3] twoEntries))
      \<and> keyMatcher exampleOptions
          (keys (snd (memoized exampleOptions counter [Atom 3] twoEntries)) ! 0)
          (requestKey exampleOptions [Atom 3])"
    by code_simp
  have miss: "getKeyIndex exampleOptions (keys twoEntries) (requestKey exampleOptions [Atom 3]) = None"
    by code_simp
  have thrown: "memoized exampleOptions failing [Atom 4] twoEntries
      = (Inl (Thrown ()), snd (memoized exampleOptions failing [Atom 4] twoEntries))"
    by code_simp
  have given: "trace twoEntries = []" by (simp add: twoEntries_def)
  note hit = second_call_is_a_hit [where opts = exampleOptions and fn = counter
      and s = twoEntries and args = "[Atom 3]" and args' = "[Atom 3]" and v = "Atom 2"
      and s' = "snd (memoized exampleOptions counter [Atom 3] twoEntries)",
      THEN conjunct1, THEN mp, OF returned]
  note again = second_call_is_a_hit [where opts = exampleOptions and fn = failing
      and s = twoEntries and args = "[Atom 4]" and args' = "[Atom 4]" and err = "()"
      and s' = "snd (memoized exampleOptions failing [Atom 4] twoEntries)",
      THEN conjunct2, THEN mp, OF thrown]
  from hit again show ?thesis
    unfolding miss given by simp
qed

text \<open>
  As stated, C2 fails in two ways. A wrapped function that throws is invoked by each of
  two calls in a row, since nothing is stored; and when the entry is already in the store,
  two calls in a row do not invoke the wrapped function at all.
\<close>

theorem second_call_counterexample:
  "invocations (trace (run exampleOptions failing (emptyCache 0) [Call [Atom 1], Call [Atom 1]]))
     = [[Atom 1], [Atom 1]]
   \<and> invocations (trace (run exampleOptions counter twoEntries [Call [Atom 1], Call [Atom 1]]))
     = []"
  by code_simp

section \<open>Promotion to the front\<close>

text \<open>
  C3. Promotion from an index \<open>i\<close> with \<open>0 < i < size\<close> puts the given element at index 0,
  moves the elements at the positions before \<open>i\<close> one slot towards the tail, and leaves
  the elements after \<open>i\<close> where they were, in both sequences of the store. After a call
  that returns, the entry it matched or inserted is at index 0, and its value is what the
  call returned.
\<close>

theorem promotion_moves_to_front:
  fixes fn :: "('a, 'e, 'w) wrapped" and s :: "('a, 'h, 'w) state"
  shows "(0 < i \<and> i < length xs
          \<longrightarrow> orderByLru xs x i = x # take i xs @ drop (Suc i) xs
            \<and> length (orderByLru xs x i) = length xs
            \<and> orderByLru xs x i ! 0 = x
            \<and> (\<forall>j<i. orderByLru xs x i ! Suc j = xs ! j)
            \<and> (\<forall>j. i < j \<and> j < length xs \<longrightarrow> orderByLru xs x i ! j = xs ! j))
    \<and> (0 < i \<and> i < length (keys s) \<and> length (values s) = length (keys s)
          \<and> length (keys s) \<le> limit
          \<longrightarrow> orderByLruCache s (keys s ! i) (values s ! i) i limit
              = s\<lparr>keys := orderByLru (keys s) (keys s ! i) i,
                  values := orderByLru (values s) (values s ! i) i\<rparr>)
    \<and> (1 \<le> maxSize opts \<and> length (values s) = length (keys s)
          \<and> memoized opts fn args s = (Inr v, s')
          \<longrightarrow> keys s' \<noteq> [] \<and> values s' \<noteq> [] \<and> v = values s' ! 0
            \<and> (case getKeyIndex opts (keys s) (requestKey opts args) of
                  Some j \<Rightarrow> keys s' ! 0 = keys s ! j \<and> values s' ! 0 = values s ! j
                | None \<Rightarrow> keys s' ! 0 = requestKey opts args
                    \<and> (\<exists>newValue. fst (fn args (world s)) = Inr newValue
                          \<and> values s' ! 0 = (if isPromise opts
                                then Handled newValue (requestKey opts args) else newValue))))"
proof -
  have shift: "orderByLru xs x i = x # take i xs @ drop (Suc i) xs
            \<and> length (orderByLru xs x i) = length xs
            \<and> orderByLru xs x i ! 0 = x
            \<and> (\<forall>j<i. orderByLru xs x i ! Suc j = xs ! j)
            \<and> (\<forall>j. i < j \<and> j < length xs \<longrightarrow> orderByLru xs x i ! j = xs ! j)"
    if i: "0 < i \<and> i < length xs"
  proof -
    from i have eq: "orderByLru xs x i = x # take i xs @ drop (Suc i) xs"
      by (simp add: orderByLru_eq)
    from i have "0 < i" and "i < length xs" by simp_all
    from moved_to_front_nth [OF this, of x] show ?thesis
      unfolding eq by simp
  qed
  have store: "orderByLruCache s (keys s ! i) (values s ! i) i limit
              = s\<lparr>keys := orderByLru (keys s) (keys s ! i) i,
                  values := orderByLru (values s) (values s ! i) i\<rparr>"
    if a: "0 < i \<and> i < length (keys s) \<and> length (values s) = length (keys s)
          \<and> length (keys s) \<le> limit"
  proof -
    from a have "orderByLruCache s (keys s ! i) (values s ! i) i limit =
       s\<lparr>keys := take limit (keys s ! i # take i (keys s) @ drop (Suc i) (keys s)),
         values := take limit (values s ! i # take i (values s) @ drop (Suc i) (values s))\<rparr>"
      by (intro orderByLruCache_promote) simp_all
    moreover have "length (keys s ! i # take i (keys s) @ drop (Suc i) (keys s)) \<le> limit"
      and "length (values s ! i # take i (values s) @ drop (Suc i) (values s)) \<le> limit"
      using a by auto
    ultimately show ?thesis
      using a by (simp add: orderByLru_eq)
  qed
  have front: "keys s' \<noteq> [] \<and> values s' \<noteq> [] \<and> v = values s' ! 0
            \<and> (case getKeyIndex opts (keys s) (requestKey opts args) of
                  Some j \<Rightarrow> keys s' ! 0 = keys s ! j \<and> values s' ! 0 = values s ! j
                | None \<Rightarrow> keys s' ! 0 = requestKey opts args
                    \<and> (\<exists>newValue. fst (fn args (world s)) = Inr newValue
                          \<and> values s' ! 0 = (if isPromise opts
                                then Handled newValue (requestKey opts args) else newValue)))"
    if a: "1 \<le> maxSize opts \<and> length (values s) = length (keys s)
          \<and> memoized opts fn args s = (Inr v, s')"
  proof -
    from a have "1 \<le> maxSize opts" and "length (values s) = length (keys s)"
      and "memoized opts fn args s = (Inr v, s')"
      by simp_all
    then show ?thesis by (rule memoized_front_entry)
  qed
  from shift store front show ?thesis by blast
qed

theorem promotion_moves_to_front_witness:
  "orderByLru [Atom (10::nat), Atom 11, Atom 12, Atom 13] (Atom 12) 2
     = [Atom 12, Atom 10, Atom 11, Atom 13]
   \<and> orderByLruCache twoEntries (Array [Atom 2]) (Atom 1) 1 2
     = twoEntries\<lparr>keys := [Array [Atom 2], Array [Atom 1]], values := [Atom 1, Atom 0]\<rparr>
   \<and> keys (snd (memoized exampleOptions counter [Atom 2] twoEntries)) ! 0 = Array [Atom 2]
   \<and> values (snd (memoized exampleOptions counter [Atom 2] twoEntries)) ! 0 = Atom 1
   \<and> keys (snd (memoized exampleOptions counter [Atom 3] twoEntries)) ! 0 = Array [Atom 3]"
proof -
  have shift: "(0::nat) < 2 \<and> 2 < length [Atom (10::nat), Atom 11, Atom 12, Atom 13]"
    by simp
  have store: "(0::nat) < 1 \<and> 1 < length (keys twoEntries)
      \<and> length (values twoEntries) = length (keys twoEntries) \<and> length (keys twoEntries) \<le> 2"
    by code_simp
  have hit: "1 \<le> maxSize exampleOptions \<and> length (values twoEntries) = length (keys twoEntries)
      \<and> memoized exampleOptions counter [Atom 2] twoEntries
          = (Inr (Atom 1), snd (memoized exampleOptions counter [Atom 2] twoEntries))"
    by code_simp
  have miss: "1 \<le> maxSize exampleOptions \<and> length (values twoEntries) = length (keys twoEntries)
      \<and> memoized exampleOptions counter [Atom 3] twoEntries
          = (Inr (Atom 2), snd (memoized exampleOptions counter [Atom 3] twoEntries))"
    by code_simp
  have found: "getKeyIndex exampleOptions (keys twoEntries) (requestKey exampleOptions [Atom 2]) = Some 1"
    "getKeyIndex exampleOptions (keys twoEntries) (requestKey exampleOptions [Atom 3]) = None"
    by code_simp+
  have given: "keys twoEntries = [Array [Atom 1], Array [Atom 2]]"
    "values twoEntries = [Atom 0, Atom 1]"
    "requestKey exampleOptions [Atom 3] = Array [Atom 3]"
    by (simp_all add: twoEntries_def requestKey_def exampleOptions_def)
  have a: "orderByLru [Atom (10::nat), Atom 11, Atom 12, Atom 13] (Atom 12) 2
     = [Atom 12, Atom 10, Atom 11, Atom 13]"
    using promotion_moves_to_front [where i = 2 and x = "Atom 12"
        and xs = "[Atom (10::nat), Atom 11, Atom 12, Atom 13]", THEN conjunct1] shift
    by simp
  have b: "orderByLruCache twoEntries (Array [Atom 2]) (Atom 1) 1 2
     = twoEntries\<lparr>keys := [Array [Atom 2], Array [Atom 1]], values := [Atom 1, Atom 0]\<rparr>"
    using promotion_moves_to_front [where i = 1 and s = twoEntries and limit = 2
        and xs = "keys twoEntries" and x = "Array [Atom 2]", THEN conjunct2, THEN conjunct1]
      promotion_moves_to_front [where i = 1 and s = twoEntries and limit = 2
        and xs = "keys twoEntries" and x = "Array [Atom 2]", THEN conjunct1]
      promotion_moves_to_front [where i = 1 and xs = "values twoEntries" and x = "Atom 1",
        THEN conjunct1]
      store
    by (simp add: given)
  have "case getKeyIndex exampleOptions (keys twoEntries) (requestKey exampleOptions [Atom 2]) of
          Some j \<Rightarrow> keys (snd (memoized exampleOptions counter [Atom 2] twoEntries)) ! 0
                      = keys twoEntries ! j
                    \<and> values (snd (memoized exampleOptions counter [Atom 2] twoEntries)) ! 0
                      = values twoEntries ! j
        | None \<Rightarrow> keys (snd (memoized exampleOptions counter [Atom 2] twoEntries)) ! 0
                      = requestKey exampleOptions [Atom 2]
            \<and> (\<exists>newValue. fst (counter [Atom 2] (world twoEntries)) = Inr newValue
                  \<and> values (snd (memoized exampleOptions counter [Atom 2] twoEntries)) ! 0
                      = (if isPromise exampleOptions
                         then Handled newValue (requestKey exampleOptions [Atom 2]) else newValue))"
    using promotion_moves_to_front [where opts = exampleOptions and fn = counter and s = twoEntries
        and args = "[Atom 2]" and v = "Atom 1"
        and s' = "snd (memoized exampleOptions counter [Atom 2] twoEntries)",
        THEN conjunct2, THEN conjunct2] hit
    by blast
  then have c: "keys (snd (memoized exampleOptions counter [Atom 2] twoEntries)) ! 0 = Array [Atom 2]
    \<and> values (snd (memoized exampleOptions counter [Atom 2] twoEntries)) ! 0 = Atom 1"
    unfolding found by (simp add: given)
  have "case getKeyIndex exampleOptions (keys twoEntries) (requestKey exampleOptions [Atom 3]) of
          Some j \<Rightarrow> keys (snd (memoized exampleOptions counter [Atom 3] twoEntries)) ! 0
                      = keys twoEntries ! j
                    \<and> values (snd (memoized exampleOptions counter [Atom 3] twoEntries)) ! 0
                      = values twoEntries ! j
        | None \<Rightarrow> keys (snd (memoized exampleOptions counter [Atom 3] twoEntries)) ! 0
                      = requestKey exampleOptions [Atom 3]
            \<and> (\<exists>newValue. fst (counter [Atom 3] (world twoEntries)) = Inr newValue
                  \<and> values (snd (memoized exampleOptions counter [Atom 3] twoEntries)) ! 0
                      = (if isPromise exampleOptions
                         then Handled newValue (requestKey exampleOptions [Atom 3]) else newValue))"
    using promotion_moves_to_front [where opts = exampleOptions and fn = counter and s = twoEntries
        and args = "[Atom 3]" and v = "Atom 2"
        and s' = "snd (memoized exampleOptions counter [Atom 3] twoEntries)",
        THEN conjunct2, THEN conjunct2] miss
    by blast
  then have d: "keys (snd (memoized exampleOptions counter [Atom 3] twoEntries)) ! 0 = Array [Atom 3]"
    unfolding found by (simp add: given)
  from a b c d show ?thesis by simp
qed

section \<open>Promises that are rejected\<close>



section \<open>Promises that are fulfilled\<close>

text \<open>
  C5. \<^verbatim>\<open>setPromiseHandler\<close> puts, in the place of the promise at index 0, the promise with
  the two callbacks attached. When the promise is fulfilled, whatever the cache holds by
  then, the \<^verbatim>\<open>.then\<close> callback calls the hit hook and then the change hook, each with the
  cache as it is at that time, changes nothing in the store, and passes the value on.
\<close>

theorem fulfilled_promise_fires_hooks:
  fixes s0 s1 s :: "('a, 'h, 'w) state"
  shows "((setPromiseHandler s0 :: 'e error + ('a, 'h, 'w) state) = Inr s1
          \<longrightarrow> values s0 \<noteq> [] \<and> keys s1 = keys s0
            \<and> values s1 = Handled (values s0 ! 0) (arrayGet (keys s0) 0) # tl (values s0))
    \<and> settle hitHook changeHook locate key (Fulfilled v) s
        = (Fulfilled v,
           s\<lparr>trace := trace s @ [HookCall hitHook (keys s) (values s),
                                 HookCall changeHook (keys s) (values s)]\<rparr>)"
proof -
  have attach: "values s0 \<noteq> [] \<and> keys s1 = keys s0
            \<and> values s1 = Handled (values s0 ! 0) (arrayGet (keys s0) 0) # tl (values s0)"
    if h: "(setPromiseHandler s0 :: 'e error + ('a, 'h, 'w) state) = Inr s1"
    using setPromiseHandler_fields(1,5,7) [OF h] by (simp add: hd_conv_nth)
  have "settle hitHook changeHook locate key (Fulfilled v) s
        = (Fulfilled v,
           s\<lparr>trace := trace s @ [HookCall hitHook (keys s) (values s),
                                 HookCall changeHook (keys s) (values s)]\<rparr>)"
    by (simp add: settle_Fulfilled onFulfilled_def)
  with attach show ?thesis by blast
qed

theorem fulfilled_promise_fires_hooks_witness:
  "values (snd (memoized asyncOptions pending [Atom 3] twoPending))
     = [Handled (Promise 2) (Array [Atom 3]), Handled (Promise 1) (Array [Atom 1])]
   \<and> settle HitHook ChangeHook (getKeyIndex asyncOptions) (Array [Atom 2]) (Fulfilled (Atom 7))
        (snd (memoized asyncOptions pending [Atom 3] twoPending))
     = (Fulfilled (Atom 7),
        (snd (memoized asyncOptions pending [Atom 3] twoPending))
          \<lparr>trace := trace (snd (memoized asyncOptions pending [Atom 3] twoPending))
             @ [HookCall HitHook [Array [Atom 3], Array [Atom 1]]
                  [Handled (Promise 2) (Array [Atom 3]), Handled (Promise 1) (Array [Atom 1])],
                HookCall ChangeHook [Array [Atom 3], Array [Atom 1]]
                  [Handled (Promise 2) (Array [Atom 3]), Handled (Promise 1) (Array [Atom 1])]]\<rparr>)"
proof -
  let ?stored = "orderByLruCache (twoPending\<lparr>trace := trace twoPending @ [Invoked [Atom 3]], world := 3\<rparr>)
       (Array [Atom 3]) (Promise 2) 2 2"
  let ?later = "snd (memoized asyncOptions pending [Atom 3] twoPending)"
  have attached: "(setPromiseHandler ?stored :: unit error + (nat, hook, nat) state)
       = Inr (?stored\<lparr>values := [Handled (Promise 2) (Array [Atom 3]), Handled (Promise 1) (Array [Atom 1])]\<rparr>)"
    by code_simp
  have later: "keys ?later = [Array [Atom 3], Array [Atom 1]]"
    "values ?later = [Handled (Promise 2) (Array [Atom 3]), Handled (Promise 1) (Array [Atom 1])]"
    by code_simp+
  from fulfilled_promise_fires_hooks [where ?'e = unit and hitHook = HitHook and changeHook = ChangeHook
      and locate = "getKeyIndex asyncOptions" and key = "Array [Atom 2]" and v = "Atom 7"
      and s = ?later and ?s0.0 = ?stored
      and ?s1.0 = "?stored\<lparr>values := [Handled (Promise 2) (Array [Atom 3]), Handled (Promise 1) (Array [Atom 1])]\<rparr>"]
    attached
  show ?thesis
    unfolding later by blast
qed

section \<open>The element-wise Key Matcher\<close>

text \<open>
  C6. The element-wise matcher \<^verbatim>\<open>areKeysEqual\<close> reports a match exactly when the two key
  sequences have the same length and \<^verbatim>\<open>isEqual\<close> holds at every index; two empty key
  sequences match whatever \<^verbatim>\<open>isEqual\<close> is.
\<close>

theorem areKeysEqual_elementwise:
  "(areKeysEqual isEq keys1 keys2 \<longleftrightarrow>
      length keys1 = length keys2 \<and> (\<forall>i<length keys1. isEq (keys1 ! i) (keys2 ! i)))
   \<and> areKeysEqual isEq [] []"
proof
  show "areKeysEqual isEq keys1 keys2 \<longleftrightarrow>
      length keys1 = length keys2 \<and> (\<forall>i<length keys1. isEq (keys1 ! i) (keys2 ! i))"
  proof (cases "length keys1 = length keys2")
    case False
    then have "\<not> areKeysEqual isEq keys1 keys2"
      by (simp add: areKeysEqual_def)
    with False show ?thesis by simp
  next
    case True
    then have "areKeysEqual isEq keys1 keys2 = areKeysEqual_loop isEq keys1 keys2 0"
      by (simp add: areKeysEqual_def)
    also have "\<dots> = (\<forall>i. 0 \<le> i \<and> i < length keys1 \<longrightarrow> isEq (keys1 ! i) (keys2 ! i))"
      using True by (rule areKeysEqual_loop_iff)
    finally show ?thesis
      using True by simp
  qed
  have "areKeysEqual_loop isEq [] [] 0"
    by (subst areKeysEqual_loop.simps) simp
  then show "areKeysEqual isEq [] []"
    by (simp add: areKeysEqual_def)
qed

theorem areKeysEqual_elementwise_witness:
  "areKeysEqual (=) [Atom (1::nat), Atom 2] [Atom 1, Atom 2]
   \<and> \<not> areKeysEqual (=) [Atom (1::nat), Atom 2] [Atom 1, Atom 3]
   \<and> \<not> areKeysEqual (=) [Atom (1::nat), Atom 2] [Atom 1]"
  using areKeysEqual_elementwise [of "(=)" "[Atom (1::nat), Atom 2]" "[Atom 1, Atom 2]"]
    areKeysEqual_elementwise [of "(=)" "[Atom (1::nat), Atom 2]" "[Atom 1, Atom 3]"]
    areKeysEqual_elementwise [of "(=)" "[Atom (1::nat), Atom 2]" "[Atom 1]"]
  by (simp add: All_less_Suc)

section \<open>Whole-key matching\<close>

text \<open>
  C7. When \<^verbatim>\<open>isMatchingKey\<close> is configured, the Key Matcher is that predicate applied to
  the stored key and the key of the call, and the Key Locator returns the first index whose
  stored key the predicate accepts; \<^verbatim>\<open>isEqual\<close> plays no part.
\<close>

theorem whole_key_matching:
  assumes "isMatchingKey opts = Some matchingKey"
  shows "keyMatcher opts storedKey key = matchingKey storedKey key
    \<and> (getKeyIndex opts allKeys key = Some i
        \<longleftrightarrow> i < length allKeys \<and> matchingKey (allKeys ! i) key
            \<and> (\<forall>l<i. \<not> matchingKey (allKeys ! l) key))
    \<and> (getKeyIndex opts allKeys key = None
        \<longleftrightarrow> (\<forall>l<length allKeys. \<not> matchingKey (allKeys ! l) key))
    \<and> getKeyIndex (opts\<lparr>isEqual := anyEqual\<rparr>) allKeys key = getKeyIndex opts allKeys key"
proof -
  have m: "keyMatcher opts = matchingKey"
    using assms by (rule keyMatcher_whole)
  have "isMatchingKey (opts\<lparr>isEqual := anyEqual\<rparr>) = Some matchingKey"
    using assms by simp
  then have m': "keyMatcher (opts\<lparr>isEqual := anyEqual\<rparr>) = matchingKey"
    by (rule keyMatcher_whole)
  show ?thesis
    using getKeyIndex_Some [of opts allKeys key i] getKeyIndex_None [of opts allKeys key]
    by (simp add: m) (simp add: getKeyIndex_def m m')
qed

theorem whole_key_matching_witness:
  "getKeyIndex wholeKeyOptions [Array [Atom 1], Array [Atom 2]] (Array [Atom 2, Atom 9]) = Some 1
   \<and> getKeyIndex exampleOptions [Array [Atom 1], Array [Atom 2]] (Array [Atom 2, Atom 9]) = None"
proof -
  have configured: "isMatchingKey wholeKeyOptions = Some sameFirstElement"
    by (simp add: wholeKeyOptions_def)
  have "(1::nat) < length [Array [Atom (1::nat)], Array [Atom 2]]
      \<and> sameFirstElement ([Array [Atom 1], Array [Atom 2]] ! 1) (Array [Atom 2, Atom 9])
      \<and> (\<forall>l<1. \<not> sameFirstElement ([Array [Atom 1], Array [Atom 2]] ! l) (Array [Atom 2, Atom 9]))"
    by (simp add: sameFirstElement_def)
  then have "getKeyIndex wholeKeyOptions [Array [Atom 1], Array [Atom 2]] (Array [Atom 2, Atom 9]) = Some 1"
    using whole_key_matching [OF configured, where allKeys = "[Array [Atom 1], Array [Atom 2]]"
        and key = "Array [Atom 2, Atom 9]" and i = 1]
    by blast
  moreover have "getKeyIndex exampleOptions [Array [Atom 1], Array [Atom 2]] (Array [Atom 2, Atom 9]) = None"
    by code_simp
  ultimately show ?thesis by simp
qed

section \<open>The key transform\<close>

text \<open>
  C8. The wrapping that the claim describes is what \<^verbatim>\<open>getTransformedKey\<close> of utils.js
  does (lines 86 to 90): it returns a result that is an array as it is, and puts any other
  result into a one-element array. \<^verbatim>\<open>memoized\<close> of index.ts does not call it. With a key
  transform configured, the key that \<^verbatim>\<open>memoized\<close> looks up (lines 82 and 83) is the
  transform's result as it is, array or not: it is what the Key Locator is given, and what
  is stored as the key of a new entry (lines 96 and 98). The two agree exactly when the
  transform returns an array.
\<close>

theorem transformed_key_is_used_as_it_is:
  fixes fn :: "('a, 'e, 'w) wrapped" and s :: "('a, 'h, 'w) state"
  assumes "transformKey opts = Some transform"
  shows "requestKey opts args = transform args
    \<and> (getKeyIndex opts (keys s) (transform args) = Some 0
        \<longrightarrow> memoized opts fn args s = (Inr (arrayGet (values s) 0), fire (onCacheHit opts) s))
    \<and> (length (values s) = length (keys s)
        \<and> getKeyIndex opts (keys s) (transform args) = None
        \<and> fn args (world s) = (Inr newValue, w)
        \<longrightarrow> keys (snd (memoized opts fn args s)) = take (maxSize opts) (transform args # keys s))
    \<and> getTransformedKey transform args
        = (case transform args of Array elements \<Rightarrow> elements | _ \<Rightarrow> [transform args])"
proof -
  have key: "requestKey opts args = transform args"
    using assms by (simp add: requestKey_def)
  have hit: "memoized opts fn args s = (Inr (arrayGet (values s) 0), fire (onCacheHit opts) s)"
    if "getKeyIndex opts (keys s) (transform args) = Some 0"
    using that by (intro memoized_hit_front) (simp add: key)
  have miss: "keys (snd (memoized opts fn args s)) = take (maxSize opts) (transform args # keys s)"
    if "length (values s) = length (keys s)
        \<and> getKeyIndex opts (keys s) (transform args) = None
        \<and> fn args (world s) = (Inr newValue, w)"
    using memoized_miss_store(1) [of opts s args fn newValue w] that by (simp add: key)
  have "getTransformedKey transform args
        = (case transform args of Array elements \<Rightarrow> elements | _ \<Rightarrow> [transform args])"
    by (simp add: getTransformedKey_def Let_def)
  with key hit miss show ?thesis by blast
qed

theorem transformed_key_is_used_as_it_is_witness:
  "requestKey transformOptions [Atom 5, Atom 6] = Atom 5
   \<and> keys (snd (memoized transformOptions counter [Atom 5, Atom 6] (emptyCache 0))) = [Atom 5]
   \<and> getTransformedKey firstArgument [Atom 5, Atom 6] = [Atom 5]"
proof -
  have configured: "transformKey transformOptions = Some firstArgument"
    by (simp add: transformOptions_def)
  have first: "firstArgument [Atom 5, Atom 6] = Atom 5"
    by (simp add: firstArgument_def arrayGet_def)
  have h: "length (values (emptyCache 0 :: (nat, hook, nat) state))
             = length (keys (emptyCache 0 :: (nat, hook, nat) state))
        \<and> getKeyIndex transformOptions (keys (emptyCache 0 :: (nat, hook, nat) state))
             (firstArgument [Atom 5, Atom 6]) = None
        \<and> counter [Atom 5, Atom 6] (world (emptyCache 0 :: (nat, hook, nat) state))
             = (Inr (Atom 0), 1)"
    by code_simp
  have given: "maxSize transformOptions = 2" "keys (emptyCache 0 :: (nat, hook, nat) state) = []"
    by (simp_all add: transformOptions_def exampleOptions_def emptyCache_def)
  from transformed_key_is_used_as_it_is [OF configured, where args = "[Atom 5, Atom 6]"
      and fn = counter and s = "emptyCache 0" and newValue = "Atom 0" and w = 1] h
  show ?thesis
    unfolding first given by simp
qed

text \<open>
  The claim fails on \<^verbatim>\<open>memoized\<close> when the transform returns a value that is not an
  array: for the transform that returns its first argument and the arguments 5 and 6, the
  key looked up and stored is 5, where \<^verbatim>\<open>getTransformedKey\<close> gives the one-element array
  holding 5.
\<close>

theorem transformed_key_counterexample:
  "requestKey transformOptions [Atom 5, Atom 6] = Atom 5
   \<and> getTransformedKey firstArgument [Atom 5, Atom 6] = [Atom 5]
   \<and> requestKey transformOptions [Atom 5, Atom 6]
       \<noteq> Array (getTransformedKey firstArgument [Atom 5, Atom 6])
   \<and> keys (snd (memoized transformOptions counter [Atom 5, Atom 6] (emptyCache 0))) = [Atom 5]
   \<and> keys (snd (memoized transformOptions counter [Atom 5, Atom 6] (emptyCache 0)))
       \<noteq> [Array [Atom 5]]"
  by code_simp

section \<open>Hooks\<close>




section \<open>Construction\<close>

text \<open>
  C10. Handed a function that \<^verbatim>\<open>createMemoizedFunction\<close> made, whatever the options,
  \<^verbatim>\<open>createMemoizedFunction\<close> returns that function as it is, with its wrapped function,
  its options and its cache; and everything it returns is such a function, so that applying
  it to its own result changes nothing.
\<close>

theorem construction_is_idempotent:
  fixes fn made :: "('a, 'e, 'h, 'w) callee"
  shows "(isMemoized fn \<longrightarrow> createMemoizedFunction strictEquals fn given = Inr fn)
    \<and> ((createMemoizedFunction strictEquals fn given :: 'x error + ('a, 'e, 'h, 'w) callee) = Inr made
        \<longrightarrow> isMemoized made
          \<and> (createMemoizedFunction strictEquals' made given' :: 'y error + ('a, 'e, 'h, 'w) callee)
              = Inr made)"
proof (intro conjI impI)
  assume "isMemoized fn"
  then show "createMemoizedFunction strictEquals fn given = Inr fn"
    by (simp add: createMemoizedFunction_def)
next
  assume made: "(createMemoizedFunction strictEquals fn given :: 'x error + ('a, 'e, 'h, 'w) callee)
      = Inr made"
  show "isMemoized made"
  proof (cases fn)
    case NotAFunction
    with made show ?thesis by (simp add: createMemoizedFunction_def)
  next
    case (PlainFunction f)
    with made have "made = MemoizedFunction
        \<lparr>wrappedFn = f, optionsProperty = normalizeOptions strictEquals given,
         cacheProperty = ([], [])\<rparr>"
      by (simp add: createMemoizedFunction_def)
    then show ?thesis by simp
  next
    case (MemoizedFunction m)
    with made have "made = fn" by (simp add: createMemoizedFunction_def)
    with MemoizedFunction show ?thesis by simp
  qed
  then show "(createMemoizedFunction strictEquals' made given' :: 'y error + ('a, 'e, 'h, 'w) callee)
      = Inr made"
    by (simp add: createMemoizedFunction_def)
qed

theorem construction_is_idempotent_witness:
  "(createMemoizedFunction (=) (PlainFunction counter) noOptions
      :: unit error + (nat, unit, hook, nat) callee)
     = Inr (MemoizedFunction \<lparr>wrappedFn = counter, optionsProperty = normalizeOptions (=) noOptions,
              cacheProperty = ([], [])\<rparr>)
   \<and> (createMemoizedFunction (=)
        (MemoizedFunction \<lparr>wrappedFn = counter, optionsProperty = normalizeOptions (=) noOptions,
              cacheProperty = ([], [])\<rparr>)
        (noOptions\<lparr>maxSize' := Some 5\<rparr>) :: unit error + (nat, unit, hook, nat) callee)
     = Inr (MemoizedFunction \<lparr>wrappedFn = counter, optionsProperty = normalizeOptions (=) noOptions,
              cacheProperty = ([], [])\<rparr>)"
proof -
  have made: "(createMemoizedFunction (=) (PlainFunction counter) noOptions
      :: unit error + (nat, unit, hook, nat) callee)
     = Inr (MemoizedFunction \<lparr>wrappedFn = counter, optionsProperty = normalizeOptions (=) noOptions,
              cacheProperty = ([], [])\<rparr>)"
    by (simp add: createMemoizedFunction_def)
  from construction_is_idempotent [where ?'x = unit and ?'y = unit and strictEquals = "(=)"
      and fn = "PlainFunction counter" and given = noOptions and strictEquals' = "(=)"
      and given' = "noOptions\<lparr>maxSize' := Some 5\<rparr>", THEN conjunct2] made
  show ?thesis by blast
qed


end
